theory Spec2Isabelle
  imports Main "HOL-Library.Sublist"
begin

section \<open>Python string and sequence primitives\<close>

text \<open>
  The wrapper works on Python \<open>str\<close> values with slicing, \<open>find\<close>, \<open>in\<close>,
  \<open>startswith\<close> and \<open>endswith\<close>. Slices never raise: a bound is clamped to the
  string, a negative bound counts from the end. Indexing a list raises IndexError
  out of range.
\<close>

datatype error = ValueError | IndexError

definition clamp_index :: "nat \<Rightarrow> int \<Rightarrow> nat" where
  "clamp_index n i = (if i < 0 then nat (max 0 (int n + i)) else min n (nat i))"

definition slice :: "'a list \<Rightarrow> int option \<Rightarrow> int option \<Rightarrow> 'a list" where
  "slice s lo hi =
     (let a = (case lo of None \<Rightarrow> 0 | Some i \<Rightarrow> clamp_index (length s) i);
          b = (case hi of None \<Rightarrow> length s | Some j \<Rightarrow> clamp_index (length s) j)
      in take (b - a) (drop a s))"

definition getitem :: "'a list \<Rightarrow> int \<Rightarrow> error + 'a" where
  "getitem xs i =
     (if 0 \<le> i \<and> i < int (length xs) then Inr (xs ! nat i)
      else if i < 0 \<and> - int (length xs) \<le> i then Inr (xs ! nat (int (length xs) + i))
      else Inl IndexError)"

definition startswith :: "string \<Rightarrow> string \<Rightarrow> bool" where
  "startswith s u = (take (length u) s = u)"

definition endswith :: "string \<Rightarrow> string \<Rightarrow> bool" where
  "endswith s u = (length u \<le> length s \<and> drop (length s - length u) s = u)"

text \<open>\<open>s.find(u)\<close>: the lowest index at which \<open>u\<close> occurs in \<open>s\<close>, or \<open>-1\<close>.\<close>

fun str_find :: "string \<Rightarrow> string \<Rightarrow> int" where
  "str_find [] u = (if u = [] then 0 else - 1)"
| "str_find (c # s) u =
     (if startswith (c # s) u then 0
      else (let r = str_find s u in if r < 0 then - 1 else r + 1))"

text \<open>\<open>u in s\<close> for strings: \<open>u\<close> occurs somewhere in \<open>s\<close>.\<close>

definition str_in :: "string \<Rightarrow> string \<Rightarrow> bool" where
  "str_in u s = (str_find s u \<noteq> - 1)"

text \<open>\<open>min(n, key=len)\<close> over a collection in iteration order: the first element of
  least length; ValueError on an empty collection.\<close>

fun min_by_len :: "string list \<Rightarrow> error + string" where
  "min_by_len [] = Inl ValueError"
| "min_by_len (x # xs) = Inr (foldl (\<lambda>m y. if length y < length m then y else m) x xs)"

section \<open>ProperSuffix\<close>

definition ProperSuffix :: "string \<Rightarrow> string \<Rightarrow> bool" where
  "ProperSuffix u s = (endswith s u \<and> \<not> str_in u (slice s None (Some (- int (length u)))))"

section \<open>The wrapper object\<close>

text \<open>
  The object holds the training labels, the training documents (the contents read from
  the example files), the number of attributes and the two delimiter tables.
\<close>

record SingleEntryLRWrapper =
  labels :: "(int \<times> int) list list"
  examples :: "string list"
  num_attributes :: nat
  left :: "string list"
  right :: "string list"

text \<open>
  The methods build Python sets of strings and iterate over them. The iteration order of
  a set of strings is not fixed by the language, so it is a parameter \<open>ord\<close>: it maps
  the elements in insertion order to the elements in iteration order. All that is known
  of it is \<open>set_order\<close>: same elements, each once.
\<close>

type_synonym set_iter = "string list \<Rightarrow> string list"

definition set_order :: "set_iter \<Rightarrow> bool" where
  "set_order ord = (\<forall>xs. set (ord xs) = set xs \<and> distinct (ord xs))"

text \<open>A comprehension over \<open>enumerate(self.examples)\<close>; the first raise ends it.\<close>

fun collect :: "(nat \<Rightarrow> string \<Rightarrow> error + string) \<Rightarrow> nat \<Rightarrow> string list \<Rightarrow> error + string list" where
  "collect f i [] = Inr []"
| "collect f i (P # Ps) =
     (case f i P of Inl e \<Rightarrow> Inl e
      | Inr x \<Rightarrow> (case collect f (Suc i) Ps of Inl e \<Rightarrow> Inl e | Inr xs \<Rightarrow> Inr (x # xs)))"

text \<open>\<open>self.labels[i][k]\<close>\<close>

definition label :: "SingleEntryLRWrapper \<Rightarrow> nat \<Rightarrow> int \<Rightarrow> error + (int \<times> int)" where
  "label self i k =
     (case getitem (labels self) (int i) of Inl e \<Rightarrow> Inl e | Inr l \<Rightarrow> getitem l k)"

definition attributes :: "set_iter \<Rightarrow> SingleEntryLRWrapper \<Rightarrow> int \<Rightarrow> error + string list" where
  "attributes ord self k =
     (case collect (\<lambda>i P. case label self i k of Inl e \<Rightarrow> Inl e
                          | Inr (a, b) \<Rightarrow> Inr (slice P (Some a) (Some b))) 0 (examples self)
      of Inl e \<Rightarrow> Inl e | Inr xs \<Rightarrow> Inr (ord xs))"

definition example_heads :: "set_iter \<Rightarrow> SingleEntryLRWrapper \<Rightarrow> error + string list" where
  "example_heads ord self =
     (case collect (\<lambda>i P. case label self i 0 of Inl e \<Rightarrow> Inl e
                          | Inr (a, b) \<Rightarrow> Inr (slice P None (Some a))) 0 (examples self)
      of Inl e \<Rightarrow> Inl e | Inr xs \<Rightarrow> Inr (ord xs))"

definition example_tails :: "set_iter \<Rightarrow> SingleEntryLRWrapper \<Rightarrow> error + string list" where
  "example_tails ord self =
     (case collect (\<lambda>i P. case label self i (- 1) of Inl e \<Rightarrow> Inl e
                          | Inr (a, b) \<Rightarrow> Inr (slice P (Some b) None)) 0 (examples self)
      of Inl e \<Rightarrow> Inl e | Inr xs \<Rightarrow> Inr (ord xs))"

definition Seps :: "set_iter \<Rightarrow> SingleEntryLRWrapper \<Rightarrow> int \<Rightarrow> error + string list" where
  "Seps ord self k =
     (if k = int (num_attributes self) - 1 then Inr []
      else (case collect (\<lambda>i P. case label self i k of Inl e \<Rightarrow> Inl e
                | Inr (a, b) \<Rightarrow> (case label self i (k + 1) of Inl e \<Rightarrow> Inl e
                    | Inr (c, d) \<Rightarrow> Inr (slice P (Some b) (Some c)))) 0 (examples self)
            of Inl e \<Rightarrow> Inl e | Inr xs \<Rightarrow> Inr (ord xs)))"

text \<open>\<open>a.union(b)\<close>: both operands are evaluated first, \<open>a\<close> before \<open>b\<close>.\<close>

definition union_sets :: "set_iter \<Rightarrow> error + string list \<Rightarrow> error + string list \<Rightarrow> error + string list" where
  "union_sets ord a b =
     (case a of Inl e \<Rightarrow> Inl e
      | Inr xs \<Rightarrow> (case b of Inl e \<Rightarrow> Inl e | Inr ys \<Rightarrow> Inr (ord (xs @ ys))))"

definition LeftNeighbors :: "set_iter \<Rightarrow> SingleEntryLRWrapper \<Rightarrow> int \<Rightarrow> error + string list" where
  "LeftNeighbors ord self k =
     (if k = 0 then union_sets ord (Seps ord self (int (num_attributes self) - 1)) (example_heads ord self)
      else Seps ord self (k - 1))"

definition RightNeighbors :: "set_iter \<Rightarrow> SingleEntryLRWrapper \<Rightarrow> int \<Rightarrow> error + string list" where
  "RightNeighbors ord self k =
     (if k = int (num_attributes self) - 1
      then union_sets ord (Seps ord self (int (num_attributes self) - 1)) (example_tails ord self)
      else Seps ord self k)"

definition LeftCandidates :: "set_iter \<Rightarrow> SingleEntryLRWrapper \<Rightarrow> int \<Rightarrow> error + string list" where
  "LeftCandidates ord self k =
     (case LeftNeighbors ord self k of Inl e \<Rightarrow> Inl e
      | Inr n \<Rightarrow> (case min_by_len n of Inl e \<Rightarrow> Inl e
          | Inr shortest \<Rightarrow>
              Inr (ord (map (\<lambda>i. slice shortest (Some (int i)) None) [0..<length shortest]))))"

definition RightCandidates :: "set_iter \<Rightarrow> SingleEntryLRWrapper \<Rightarrow> int \<Rightarrow> error + string list" where
  "RightCandidates ord self k =
     (case RightNeighbors ord self k of Inl e \<Rightarrow> Inl e
      | Inr n \<Rightarrow> (case min_by_len n of Inl e \<Rightarrow> Inl e
          | Inr shortest \<Rightarrow>
              Inr (ord (map (\<lambda>i. slice shortest None (Some (int i))) [0..<length shortest]))))"

definition IsValidLeft :: "set_iter \<Rightarrow> SingleEntryLRWrapper \<Rightarrow> string \<Rightarrow> int \<Rightarrow> error + bool" where
  "IsValidLeft ord self u k =
     (case LeftNeighbors ord self k of Inl e \<Rightarrow> Inl e
      | Inr n \<Rightarrow>
          if \<not> list_all (ProperSuffix u) n then Inr False
          else if k = 0 then
            (case example_tails ord self of Inl e \<Rightarrow> Inl e
             | Inr t \<Rightarrow> Inr (list_all (\<lambda>s. \<not> str_in u s) t))
          else Inr True)"

definition IsValidRight :: "set_iter \<Rightarrow> SingleEntryLRWrapper \<Rightarrow> string \<Rightarrow> int \<Rightarrow> error + bool" where
  "IsValidRight ord self u k =
     (case attributes ord self k of Inl e \<Rightarrow> Inl e
      | Inr a \<Rightarrow>
          if \<not> list_all (\<lambda>s. \<not> str_in u s) a then Inr False
          else (case RightNeighbors ord self k of Inl e \<Rightarrow> Inl e
                | Inr n \<Rightarrow> Inr (list_all (\<lambda>s. startswith s u) n)))"

text \<open>The inner loops: the first candidate that validates is stored, then \<open>break\<close>.\<close>

fun try_left :: "set_iter \<Rightarrow> SingleEntryLRWrapper \<Rightarrow> nat \<Rightarrow> string list \<Rightarrow> error + SingleEntryLRWrapper" where
  "try_left ord self k [] = Inr self"
| "try_left ord self k (u # us) =
     (case IsValidLeft ord self u (int k) of Inl e \<Rightarrow> Inl e
      | Inr v \<Rightarrow>
          if v then (if k < length (left self) then Inr (self\<lparr>left := (left self)[k := u]\<rparr>)
                     else Inl IndexError)
          else try_left ord self k us)"

fun try_right :: "set_iter \<Rightarrow> SingleEntryLRWrapper \<Rightarrow> nat \<Rightarrow> string list \<Rightarrow> error + SingleEntryLRWrapper" where
  "try_right ord self k [] = Inr self"
| "try_right ord self k (u # us) =
     (case IsValidRight ord self u (int k) of Inl e \<Rightarrow> Inl e
      | Inr v \<Rightarrow>
          if v then (if k < length (right self) then Inr (self\<lparr>right := (right self)[k := u]\<rparr>)
                     else Inl IndexError)
          else try_right ord self k us)"

text \<open>The outer loops over \<open>range(self.num_attributes)\<close>.\<close>

fun left_loop :: "set_iter \<Rightarrow> SingleEntryLRWrapper \<Rightarrow> nat list \<Rightarrow> error + SingleEntryLRWrapper" where
  "left_loop ord self [] = Inr self"
| "left_loop ord self (k # ks) =
     (case LeftCandidates ord self (int k) of Inl e \<Rightarrow> Inl e
      | Inr cs \<Rightarrow> (case try_left ord self k cs of Inl e \<Rightarrow> Inl e
                   | Inr self' \<Rightarrow> left_loop ord self' ks))"

fun right_loop :: "set_iter \<Rightarrow> SingleEntryLRWrapper \<Rightarrow> nat list \<Rightarrow> error + SingleEntryLRWrapper" where
  "right_loop ord self [] = Inr self"
| "right_loop ord self (k # ks) =
     (case RightCandidates ord self (int k) of Inl e \<Rightarrow> Inl e
      | Inr cs \<Rightarrow> (case try_right ord self k cs of Inl e \<Rightarrow> Inl e
                   | Inr self' \<Rightarrow> right_loop ord self' ks))"

definition GetValidLeft :: "set_iter \<Rightarrow> SingleEntryLRWrapper \<Rightarrow> error + SingleEntryLRWrapper" where
  "GetValidLeft ord self = left_loop ord self [0..<num_attributes self]"

definition GetValidRight :: "set_iter \<Rightarrow> SingleEntryLRWrapper \<Rightarrow> error + SingleEntryLRWrapper" where
  "GetValidRight ord self = right_loop ord self [0..<num_attributes self]"

text \<open>
  The constructor. \<open>docs\<close> are the texts read from \<open>examples_file_paths\<close>, in order;
  the empty-labels check comes before any file is read.
\<close>

definition init :: "set_iter \<Rightarrow> string list \<Rightarrow> (int \<times> int) list list \<Rightarrow> error + SingleEntryLRWrapper" where
  "init ord docs lbls =
     (if length lbls = 0 then Inl ValueError
      else (case getitem lbls 0 of Inl e \<Rightarrow> Inl e
            | Inr l0 \<Rightarrow>
                (case GetValidLeft ord
                        \<lparr>labels = lbls, examples = docs, num_attributes = length l0,
                         left = replicate (length l0) [], right = replicate (length l0) []\<rparr>
                 of Inl e \<Rightarrow> Inl e
                 | Inr self \<Rightarrow> GetValidRight ord self)))"

section \<open>Extraction\<close>

text \<open>
  \<open>execLR\<close> walks \<open>zip(self.left, self.right)\<close> with the shrinking page \<open>P\<close>. It
  returns the extracted attributes together with the object as it is after the call.
\<close>

fun execLR_loop :: "(string \<times> string) list \<Rightarrow> string \<Rightarrow> string list \<Rightarrow> string list" where
  "execLR_loop [] P attr = attr"
| "execLR_loop ((l, r) # lrs) P attr =
     (let l_idx = str_find P l + int (length l);
          r_idx = str_find (slice P (Some l_idx) None) r + l_idx
      in execLR_loop lrs (slice P (Some r_idx) None) (attr @ [slice P (Some l_idx) (Some r_idx)]))"

definition execLR :: "SingleEntryLRWrapper \<Rightarrow> string \<Rightarrow> string list \<times> SingleEntryLRWrapper" where
  "execLR self P = (execLR_loop (zip (left self) (right self)) P [], self)"

text \<open>
  The page \<open>P\<close> as the loop of \<open>execLR\<close> holds it after the iterations over the given
  delimiter pairs: each iteration rebinds \<open>P\<close> to \<open>P[r_idx:]\<close>.
\<close>

fun page_after :: "(string \<times> string) list \<Rightarrow> string \<Rightarrow> string" where
  "page_after [] P = P"
| "page_after ((l, r) # lrs) P =
     (let l_idx = str_find P l + int (length l);
          r_idx = str_find (slice P (Some l_idx) None) r + l_idx
      in page_after lrs (slice P (Some r_idx) None))"

section \<open>Well-formed training input and the texts around an attribute\<close>

text \<open>
  Training input is well formed when there is at least one document, one label list per
  document, and every label list has as many spans as the first. The functions below name
  the pieces of document \<open>i\<close> the learner looks at: the text of attribute \<open>k\<close>, the
  separator after it, the head before the first attribute and the tail after the last.
  \<open>pick\<close> is the inner loop of the learner read as a function: the first candidate in
  iteration order that validates, else the value already stored.
\<close>

definition wf_training :: "string list \<Rightarrow> (int \<times> int) list list \<Rightarrow> bool" where
  "wf_training docs lbls =
     (docs \<noteq> [] \<and> length lbls = length docs \<and> list_all (\<lambda>l. length l = length (hd lbls)) lbls)"

definition wf_self :: "SingleEntryLRWrapper \<Rightarrow> bool" where
  "wf_self self =
     (wf_training (examples self) (labels self) \<and> num_attributes self = length (hd (labels self)))"

definition attr_text :: "SingleEntryLRWrapper \<Rightarrow> nat \<Rightarrow> nat \<Rightarrow> string" where
  "attr_text self k i =
     slice (examples self ! i) (Some (fst (labels self ! i ! k))) (Some (snd (labels self ! i ! k)))"

definition sep_text :: "SingleEntryLRWrapper \<Rightarrow> nat \<Rightarrow> nat \<Rightarrow> string" where
  "sep_text self k i =
     slice (examples self ! i) (Some (snd (labels self ! i ! k))) (Some (fst (labels self ! i ! Suc k)))"

definition head_text :: "SingleEntryLRWrapper \<Rightarrow> nat \<Rightarrow> string" where
  "head_text self i = slice (examples self ! i) None (Some (fst (labels self ! i ! 0)))"

definition tail_text :: "SingleEntryLRWrapper \<Rightarrow> nat \<Rightarrow> string" where
  "tail_text self i =
     slice (examples self ! i) (Some (snd (labels self ! i ! (num_attributes self - 1)))) None"

definition left_nb :: "SingleEntryLRWrapper \<Rightarrow> nat \<Rightarrow> nat \<Rightarrow> string" where
  "left_nb self k i = (if k = 0 then head_text self i else sep_text self (k - 1) i)"

definition right_nb :: "SingleEntryLRWrapper \<Rightarrow> nat \<Rightarrow> nat \<Rightarrow> string" where
  "right_nb self k i = (if Suc k = num_attributes self then tail_text self i else sep_text self k i)"

definition valid_left :: "SingleEntryLRWrapper \<Rightarrow> string \<Rightarrow> nat \<Rightarrow> bool" where
  "valid_left self u k =
     (list_all (\<lambda>i. ProperSuffix u (left_nb self k i)) [0..<length (examples self)] \<and>
      (k \<noteq> 0 \<or> list_all (\<lambda>i. \<not> str_in u (tail_text self i)) [0..<length (examples self)]))"

definition valid_right :: "SingleEntryLRWrapper \<Rightarrow> string \<Rightarrow> nat \<Rightarrow> bool" where
  "valid_right self u k =
     (list_all (\<lambda>i. \<not> str_in u (attr_text self k i)) [0..<length (examples self)] \<and>
      list_all (\<lambda>i. startswith (right_nb self k i) u) [0..<length (examples self)])"

definition pick :: "(string \<Rightarrow> bool) \<Rightarrow> string list \<Rightarrow> string \<Rightarrow> string" where
  "pick V cs d = (case List.find V cs of None \<Rightarrow> d | Some u \<Rightarrow> u)"

definition same_training :: "SingleEntryLRWrapper \<Rightarrow> SingleEntryLRWrapper \<Rightarrow> bool" where
  "same_training s t =
     (labels s = labels t \<and> examples s = examples t \<and> num_attributes s = num_attributes t)"


section \<open>Facts about the string primitives\<close>

lemma startswith_prefix: "startswith s u = prefix u s"
  unfolding startswith_def
  by (metis append_eq_conv_conj prefix_def append_take_drop_id)

lemma endswith_suffix: "endswith s u = suffix u s"
proof
  assume "endswith s u"
  then have "drop (length s - length u) s = u" by (simp add: endswith_def)
  then show "suffix u s" by (metis suffix_drop)
next
  assume "suffix u s"
  then obtain p where "s = p @ u" by (auto simp: suffix_def)
  then show "endswith s u" by (simp add: endswith_def)
qed

lemma str_find_range: "- 1 \<le> str_find s u \<and> str_find s u \<le> int (length s)"
  by (induction s) (auto simp: Let_def)

lemma str_find_neg: "(str_find s u = - 1) = (\<not> sublist u s)"
proof (induction s)
  case Nil
  then show ?case by auto
next
  case (Cons c s)
  have "- 1 \<le> str_find s u" using str_find_range by blast
  with Cons show ?case
    by (auto simp: Let_def startswith_prefix sublist_Cons_right)
qed

lemma str_in_sublist: "str_in u s = sublist u s"
  by (simp add: str_in_def str_find_neg)



lemma slice_None_neg: "slice s None (Some (- int n)) = (if n = 0 then [] else take (length s - n) s)"
  by (auto simp: slice_def clamp_index_def Let_def max_def nat_diff_distrib' )

lemma slice_from: "slice s (Some (int a)) None = drop a s"
  by (auto simp: slice_def clamp_index_def Let_def min_def)

lemma slice_to: "slice s None (Some (int b)) = take b s"
  by (auto simp: slice_def clamp_index_def Let_def min_def)


lemma ProperSuffix_iff:
  "ProperSuffix u s = (suffix u s \<and> \<not> sublist u (take (length s - length u) s))"
  by (auto simp: ProperSuffix_def endswith_suffix str_in_sublist slice_None_neg)

section \<open>The learner on well-formed training input\<close>

lemma collect_Inr_iff:
  "collect f i Ps = Inr xs \<longleftrightarrow>
     length xs = length Ps \<and> (\<forall>j<length Ps. f (i + j) (Ps ! j) = Inr (xs ! j))"
proof (induction Ps arbitrary: i xs)
  case Nil
  then show ?case by auto
next
  case (Cons P Ps)
  show ?case
  proof (cases xs)
    case Nil
    then show ?thesis by (auto split: sum.splits)
  next
    case (Cons x xs')
    have "(\<forall>j<Suc (length Ps). f (i + j) ((P # Ps) ! j) = Inr ((x # xs') ! j)) \<longleftrightarrow>
          f i P = Inr x \<and> (\<forall>j<length Ps. f (Suc i + j) (Ps ! j) = Inr (xs' ! j))"
      by (auto simp: All_less_Suc2)
    then show ?thesis using Cons Cons.IH[of "Suc i" xs']
      by (auto split: sum.splits)
  qed
qed

lemma collect_map:
  assumes "\<forall>j<length Ps. f (i + j) (Ps ! j) = Inr (g j)"
  shows "collect f i Ps = Inr (map g [0..<length Ps])"
  using assms by (simp add: collect_Inr_iff)

lemma getitem_nat: "k < length xs \<Longrightarrow> getitem xs (int k) = Inr (xs ! k)"
  by (simp add: getitem_def)

lemma getitem_last: "xs \<noteq> [] \<Longrightarrow> getitem xs (- 1) = Inr (xs ! (length xs - 1))"
  by (cases xs) (auto simp: getitem_def nat_diff_distrib' )

lemma wf_self_label:
  assumes "wf_self self" "i < length (examples self)" "k < num_attributes self"
  shows "label self i (int k) = Inr (labels self ! i ! k)"
proof -
  have i: "i < length (labels self)" using assms by (simp add: wf_self_def wf_training_def)
  have "length (labels self ! i) = num_attributes self"
    using assms i by (simp add: wf_self_def wf_training_def list_all_length)
  then show ?thesis using assms i by (simp add: label_def getitem_nat)
qed

lemma wf_self_label_last:
  assumes "wf_self self" "i < length (examples self)" "0 < num_attributes self"
  shows "label self i (- 1) = Inr (labels self ! i ! (num_attributes self - 1))"
proof -
  have i: "i < length (labels self)" using assms by (simp add: wf_self_def wf_training_def)
  have len: "length (labels self ! i) = num_attributes self"
    using assms i by (simp add: wf_self_def wf_training_def list_all_length)
  then have "labels self ! i \<noteq> []" using assms(3) by auto
  from getitem_last[OF this] show ?thesis using i len by (simp add: label_def getitem_nat)
qed

lemma attributes_wf:
  assumes "wf_self self" "k < num_attributes self"
  shows "attributes ord self (int k) = Inr (ord (map (attr_text self k) [0..<length (examples self)]))"
proof -
  have "collect (\<lambda>i P. case label self i (int k) of Inl e \<Rightarrow> Inl e
                          | Inr (a, b) \<Rightarrow> Inr (slice P (Some a) (Some b))) 0 (examples self)
        = Inr (map (attr_text self k) [0..<length (examples self)])"
    by (rule collect_map) (simp add: wf_self_label[OF assms(1) _ assms(2)] attr_text_def split: prod.splits)
  then show ?thesis by (simp add: attributes_def)
qed

lemma example_heads_wf:
  assumes "wf_self self" "0 < num_attributes self"
  shows "example_heads ord self = Inr (ord (map (head_text self) [0..<length (examples self)]))"
proof -
  have "collect (\<lambda>i P. case label self i 0 of Inl e \<Rightarrow> Inl e
                          | Inr (a, b) \<Rightarrow> Inr (slice P None (Some a))) 0 (examples self)
        = Inr (map (head_text self) [0..<length (examples self)])"
    using wf_self_label[OF assms(1) _ assms(2)]
    by (intro collect_map) (simp add: head_text_def split: prod.splits)
  then show ?thesis by (simp add: example_heads_def)
qed

lemma example_tails_wf:
  assumes "wf_self self" "0 < num_attributes self"
  shows "example_tails ord self = Inr (ord (map (tail_text self) [0..<length (examples self)]))"
proof -
  have "collect (\<lambda>i P. case label self i (- 1) of Inl e \<Rightarrow> Inl e
                          | Inr (a, b) \<Rightarrow> Inr (slice P (Some b) None)) 0 (examples self)
        = Inr (map (tail_text self) [0..<length (examples self)])"
    by (rule collect_map) (simp add: wf_self_label_last[OF assms(1) _ assms(2)] tail_text_def split: prod.splits)
  then show ?thesis by (simp add: example_tails_def)
qed

lemma Seps_wf:
  assumes "wf_self self" "Suc k < num_attributes self"
  shows "Seps ord self (int k) = Inr (ord (map (sep_text self k) [0..<length (examples self)]))"
proof -
  have k: "k < num_attributes self" using assms by simp
  have "collect (\<lambda>i P. case label self i (int k) of Inl e \<Rightarrow> Inl e
                | Inr (a, b) \<Rightarrow> (case label self i (int k + 1) of Inl e \<Rightarrow> Inl e
                    | Inr (c, d) \<Rightarrow> Inr (slice P (Some b) (Some c)))) 0 (examples self)
        = Inr (map (sep_text self k) [0..<length (examples self)])"
    using wf_self_label[OF assms(1) _ assms(2)]
    by (intro collect_map) (simp add: wf_self_label[OF assms(1) _ k] sep_text_def add.commute split: prod.splits)
  moreover have "int k \<noteq> int (num_attributes self) - 1" using assms by arith
  ultimately show ?thesis by (simp add: Seps_def)
qed

lemma Seps_last: "Seps ord self (int (num_attributes self) - 1) = Inr []"
  by (simp add: Seps_def)

lemma set_order_set: "set_order ord \<Longrightarrow> set (ord xs) = set xs"
  by (simp add: set_order_def)

lemma set_order_distinct: "set_order ord \<Longrightarrow> distinct (ord xs)"
  by (simp add: set_order_def)

lemma list_all_ord: "set_order ord \<Longrightarrow> list_all Q (ord xs) = list_all Q xs"
  by (simp add: list_all_iff set_order_set)

lemma LeftNeighbors_wf:
  assumes "set_order ord" "wf_self self" "k < num_attributes self"
  shows "\<exists>nb. LeftNeighbors ord self (int k) = Inr nb \<and> distinct nb \<and>
              set nb = left_nb self k ` {..<length (examples self)}"
proof (cases "k = 0")
  case True
  then have "LeftNeighbors ord self (int k)
             = Inr (ord ([] @ ord (map (head_text self) [0..<length (examples self)])))"
    using assms by (simp add: LeftNeighbors_def Seps_last example_heads_wf union_sets_def)
  then show ?thesis using assms(1) True
    by (auto simp: set_order_set set_order_distinct left_nb_def fun_eq_iff atLeast0LessThan)
next
  case False
  then have k1: "Suc (k - 1) < num_attributes self" and e: "int k - 1 = int (k - 1)"
    using assms by auto
  have "LeftNeighbors ord self (int k) = Seps ord self (int (k - 1))"
    using False unfolding LeftNeighbors_def e by simp
  then have "LeftNeighbors ord self (int k)
             = Inr (ord (map (sep_text self (k - 1)) [0..<length (examples self)]))"
    using Seps_wf[OF assms(2) k1] by simp
  then show ?thesis using assms(1) False
    by (auto simp: set_order_set set_order_distinct left_nb_def atLeast0LessThan)
qed

lemma RightNeighbors_wf:
  assumes "set_order ord" "wf_self self" "k < num_attributes self"
  shows "\<exists>nb. RightNeighbors ord self (int k) = Inr nb \<and> distinct nb \<and>
              set nb = right_nb self k ` {..<length (examples self)}"
proof (cases "Suc k = num_attributes self")
  case True
  then have "int k = int (num_attributes self) - 1" by arith
  then have "RightNeighbors ord self (int k)
             = Inr (ord ([] @ ord (map (tail_text self) [0..<length (examples self)])))"
    using assms by (simp add: RightNeighbors_def Seps_last example_tails_wf union_sets_def)
  then show ?thesis using assms(1) True
    by (auto simp: set_order_set set_order_distinct right_nb_def atLeast0LessThan)
next
  case False
  then have "Suc k < num_attributes self" "int k \<noteq> int (num_attributes self) - 1" using assms by auto
  then have "RightNeighbors ord self (int k)
             = Inr (ord (map (sep_text self k) [0..<length (examples self)]))"
    using assms by (simp add: RightNeighbors_def Seps_wf)
  then show ?thesis using assms(1) False
    by (auto simp: set_order_set set_order_distinct right_nb_def atLeast0LessThan)
qed

lemma foldl_min_len:
  "foldl (\<lambda>m y. if length y < length m then y else m) x xs \<in> set (x # xs) \<and>
   (\<forall>s\<in>set (x # xs). length (foldl (\<lambda>m y. if length y < length m then y else m) x xs) \<le> length s)"
proof (induction xs arbitrary: x)
  case Nil
  then show ?case by simp
next
  case (Cons y ys)
  show ?case using Cons.IH[of "if length y < length x then y else x"]
    by (auto split: if_splits)
qed

lemma min_by_len_ok:
  assumes "nb \<noteq> []"
  shows "\<exists>m. min_by_len nb = Inr m \<and> m \<in> set nb \<and> (\<forall>s\<in>set nb. length m \<le> length s)"
proof -
  obtain x xs where nb: "nb = x # xs" using assms by (cases nb) auto
  show ?thesis unfolding nb using foldl_min_len[of x xs] by simp
qed

lemma wf_self_examples: "wf_self self \<Longrightarrow> examples self \<noteq> []"
  by (simp add: wf_self_def wf_training_def)

lemma LeftCandidates_wf:
  assumes "set_order ord" "wf_self self" "k < num_attributes self"
  shows "\<exists>m cs. LeftCandidates ord self (int k) = Inr cs \<and> distinct cs \<and>
           m \<in> left_nb self k ` {..<length (examples self)} \<and>
           (\<forall>i<length (examples self). length m \<le> length (left_nb self k i)) \<and>
           set cs = {drop i m |i. i < length m}"
proof -
  obtain nb where nb: "LeftNeighbors ord self (int k) = Inr nb"
    "set nb = left_nb self k ` {..<length (examples self)}"
    using LeftNeighbors_wf[OF assms] by blast
  have "0 \<in> {..<length (examples self)}" using wf_self_examples[OF assms(2)] by simp
  then have "set nb \<noteq> {}" unfolding nb(2) by blast
  then have "nb \<noteq> []" by auto
  then obtain m where m: "min_by_len nb = Inr m" "m \<in> set nb" "\<forall>s\<in>set nb. length m \<le> length s"
    using min_by_len_ok by blast
  have "LeftCandidates ord self (int k)
        = Inr (ord (map (\<lambda>i. slice m (Some (int i)) None) [0..<length m]))"
    by (simp add: LeftCandidates_def nb(1) m(1))
  moreover have "set (ord (map (\<lambda>i. slice m (Some (int i)) None) [0..<length m]))
                 = {drop i m |i. i < length m}"
    using assms(1) by (auto simp: set_order_set slice_from)
  ultimately show ?thesis using m nb(2) assms(1)
    by (intro exI[of _ m] exI[of _ "ord (map (\<lambda>i. slice m (Some (int i)) None) [0..<length m])"])
       (auto simp: set_order_distinct)
qed

lemma RightCandidates_wf:
  assumes "set_order ord" "wf_self self" "k < num_attributes self"
  shows "\<exists>m cs. RightCandidates ord self (int k) = Inr cs \<and> distinct cs \<and>
           m \<in> right_nb self k ` {..<length (examples self)} \<and>
           (\<forall>i<length (examples self). length m \<le> length (right_nb self k i)) \<and>
           set cs = {take i m |i. i < length m}"
proof -
  obtain nb where nb: "RightNeighbors ord self (int k) = Inr nb"
    "set nb = right_nb self k ` {..<length (examples self)}"
    using RightNeighbors_wf[OF assms] by blast
  have "0 \<in> {..<length (examples self)}" using wf_self_examples[OF assms(2)] by simp
  then have "set nb \<noteq> {}" unfolding nb(2) by blast
  then have "nb \<noteq> []" by auto
  then obtain m where m: "min_by_len nb = Inr m" "m \<in> set nb" "\<forall>s\<in>set nb. length m \<le> length s"
    using min_by_len_ok by blast
  have "RightCandidates ord self (int k)
        = Inr (ord (map (\<lambda>i. slice m None (Some (int i))) [0..<length m]))"
    by (simp add: RightCandidates_def nb(1) m(1))
  moreover have "set (ord (map (\<lambda>i. slice m None (Some (int i))) [0..<length m]))
                 = {take i m |i. i < length m}"
    using assms(1) by (auto simp: set_order_set slice_to)
  ultimately show ?thesis using m nb(2) assms(1)
    by (intro exI[of _ m] exI[of _ "ord (map (\<lambda>i. slice m None (Some (int i))) [0..<length m])"])
       (auto simp: set_order_distinct)
qed

lemma IsValidLeft_wf:
  assumes "set_order ord" "wf_self self" "k < num_attributes self"
  shows "IsValidLeft ord self u (int k) = Inr (valid_left self u k)"
proof -
  obtain nb where nb: "LeftNeighbors ord self (int k) = Inr nb"
    "set nb = left_nb self k ` {..<length (examples self)}"
    using LeftNeighbors_wf[OF assms] by blast
  have a: "list_all (ProperSuffix u) nb
           = list_all (\<lambda>i. ProperSuffix u (left_nb self k i)) [0..<length (examples self)]"
    by (auto simp: list_all_iff nb(2))
  have n0: "0 < num_attributes self" using assms(3) by simp
  have t: "example_tails ord self = Inr (ord (map (tail_text self) [0..<length (examples self)]))"
    by (rule example_tails_wf[OF assms(2) n0])
  have b: "list_all (\<lambda>s. \<not> str_in u s) (ord (map (tail_text self) [0..<length (examples self)]))
           = list_all (\<lambda>i. \<not> str_in u (tail_text self i)) [0..<length (examples self)]"
    by (simp add: list_all_iff set_order_set[OF assms(1)])
  show ?thesis
    unfolding IsValidLeft_def valid_left_def nb(1) t by (simp add: a b)
qed

lemma IsValidRight_wf:
  assumes "set_order ord" "wf_self self" "k < num_attributes self"
  shows "IsValidRight ord self u (int k) = Inr (valid_right self u k)"
proof -
  obtain nb where nb: "RightNeighbors ord self (int k) = Inr nb"
    "set nb = right_nb self k ` {..<length (examples self)}"
    using RightNeighbors_wf[OF assms] by blast
  have a: "list_all (\<lambda>s. startswith s u) nb
           = list_all (\<lambda>i. startswith (right_nb self k i) u) [0..<length (examples self)]"
    by (auto simp: list_all_iff nb(2))
  have t: "attributes ord self (int k) = Inr (ord (map (attr_text self k) [0..<length (examples self)]))"
    by (rule attributes_wf[OF assms(2,3)])
  have b: "list_all (\<lambda>s. \<not> str_in u s) (ord (map (attr_text self k) [0..<length (examples self)]))
           = list_all (\<lambda>i. \<not> str_in u (attr_text self k i)) [0..<length (examples self)]"
    by (simp add: list_all_iff set_order_set[OF assms(1)])
  show ?thesis
    unfolding IsValidRight_def valid_right_def nb(1) t by (simp add: a b)
qed

lemma same_training_refl: "same_training s s"
  by (simp add: same_training_def)

lemma same_training_trans: "same_training s t \<Longrightarrow> same_training t r \<Longrightarrow> same_training s r"
  by (simp add: same_training_def)

lemma same_training_updates:
  "same_training s (s\<lparr>left := l\<rparr>)" "same_training s (s\<lparr>right := r\<rparr>)"
  by (simp_all add: same_training_def)

lemma same_training_wf: "same_training s t \<Longrightarrow> wf_self s = wf_self t"
  by (simp add: same_training_def wf_self_def)

lemma same_training_valid:
  assumes "same_training s t"
  shows "valid_left s = valid_left t" "valid_right s = valid_right t"
proof -
  have e: "labels s = labels t" "examples s = examples t" "num_attributes s = num_attributes t"
    using assms by (simp_all add: same_training_def)
  have "head_text s = head_text t" "tail_text s = tail_text t" "sep_text s = sep_text t"
       "attr_text s = attr_text t"
    by (simp_all add: fun_eq_iff head_text_def tail_text_def sep_text_def attr_text_def e)
  then have "left_nb s = left_nb t" "right_nb s = right_nb t"
    by (simp_all add: fun_eq_iff left_nb_def right_nb_def e)
  then show "valid_left s = valid_left t" "valid_right s = valid_right t"
    using \<open>tail_text s = tail_text t\<close> \<open>attr_text s = attr_text t\<close>
    by (simp_all add: fun_eq_iff valid_left_def valid_right_def e)
qed

lemma same_training_candidates:
  assumes "same_training s t"
  shows "LeftCandidates ord s = LeftCandidates ord t" "RightCandidates ord s = RightCandidates ord t"
        "IsValidLeft ord s = IsValidLeft ord t" "IsValidRight ord s = IsValidRight ord t"
proof -
  have e: "examples s = examples t" "num_attributes s = num_attributes t"
    using assms by (simp_all add: same_training_def)
  have l: "label s = label t"
    using assms by (simp add: fun_eq_iff label_def same_training_def)
  have a: "attributes ord s = attributes ord t" "example_heads ord s = example_heads ord t"
     "example_tails ord s = example_tails ord t" "Seps ord s = Seps ord t"
    unfolding fun_eq_iff attributes_def example_heads_def example_tails_def Seps_def e l by simp_all
  then have n: "LeftNeighbors ord s = LeftNeighbors ord t" "RightNeighbors ord s = RightNeighbors ord t"
    unfolding fun_eq_iff LeftNeighbors_def RightNeighbors_def e by simp_all
  show "LeftCandidates ord s = LeftCandidates ord t" "RightCandidates ord s = RightCandidates ord t"
        "IsValidLeft ord s = IsValidLeft ord t" "IsValidRight ord s = IsValidRight ord t"
    unfolding fun_eq_iff LeftCandidates_def RightCandidates_def IsValidLeft_def
        IsValidRight_def n a by simp_all
qed

lemma try_left_result:
  assumes "\<forall>u\<in>set cs. IsValidLeft ord self u (int k) = Inr (V u)" "k < length (left self)"
  shows "try_left ord self k cs = Inr (self\<lparr>left := (left self)[k := pick V cs (left self ! k)]\<rparr>)"
  using assms
proof (induction cs)
  case Nil
  then show ?case by (simp add: pick_def)
next
  case (Cons u us)
  then show ?case by (simp add: pick_def)
qed

lemma try_right_result:
  assumes "\<forall>u\<in>set cs. IsValidRight ord self u (int k) = Inr (V u)" "k < length (right self)"
  shows "try_right ord self k cs = Inr (self\<lparr>right := (right self)[k := pick V cs (right self ! k)]\<rparr>)"
  using assms
proof (induction cs)
  case Nil
  then show ?case by (simp add: pick_def)
next
  case (Cons u us)
  then show ?case by (simp add: pick_def)
qed

lemma left_loop_result:
  assumes "set_order ord" "wf_self self" "length (left self) = num_attributes self"
    "\<forall>k\<in>set ks. k < num_attributes self" "distinct ks"
  shows "\<exists>self'. left_loop ord self ks = Inr self' \<and> same_training self self' \<and>
           right self' = right self \<and> length (left self') = length (left self) \<and>
           (\<forall>k. k \<notin> set ks \<longrightarrow> left self' ! k = left self ! k) \<and>
           (\<forall>k\<in>set ks. \<exists>cs. LeftCandidates ord self (int k) = Inr cs \<and>
                 left self' ! k = pick (\<lambda>u. valid_left self u k) cs (left self ! k))"
  using assms(2-)
proof (induction ks arbitrary: self)
  case Nil
  then show ?case by (simp add: same_training_refl)
next
  case (Cons k ks)
  have k: "k < num_attributes self" using Cons.prems by simp
  obtain cs where cs: "LeftCandidates ord self (int k) = Inr cs"
    using LeftCandidates_wf[OF assms(1) Cons.prems(1) k] by blast
  define self1 where "self1 = self\<lparr>left := (left self)[k := pick (\<lambda>u. valid_left self u k) cs (left self ! k)]\<rparr>"
  have t: "try_left ord self k cs = Inr self1"
    unfolding self1_def
    by (rule try_left_result) (simp_all add: IsValidLeft_wf[OF assms(1) Cons.prems(1) k] Cons.prems(2) k)
  have st: "same_training self self1" by (simp add: self1_def same_training_def)
  have wf1: "wf_self self1" using Cons.prems(1) same_training_wf[OF st] by simp
  have len1: "length (left self1) = num_attributes self1" "num_attributes self1 = num_attributes self"
    using Cons.prems(2) by (simp_all add: self1_def)
  have ks1: "\<forall>k\<in>set ks. k < num_attributes self1" "distinct ks" "k \<notin> set ks"
    using Cons.prems(3,4) len1 by auto
  from Cons.IH[OF wf1 len1(1) ks1(1,2)] obtain self' where s':
    "left_loop ord self1 ks = Inr self'" "same_training self1 self'"
    "right self' = right self1" "length (left self') = length (left self1)"
    "\<forall>j. j \<notin> set ks \<longrightarrow> left self' ! j = left self1 ! j"
    "\<forall>j\<in>set ks. \<exists>cs. LeftCandidates ord self1 (int j) = Inr cs \<and>
                 left self' ! j = pick (\<lambda>u. valid_left self1 u j) cs (left self1 ! j)"
    by blast
  have run: "left_loop ord self (k # ks) = Inr self'" by (simp add: cs t s'(1))
  have at_k: "left self' ! k = pick (\<lambda>u. valid_left self u k) cs (left self ! k)"
    using s'(5) ks1(3) k Cons.prems(2) by (simp add: self1_def)
  have other: "\<forall>j. j \<notin> set (k # ks) \<longrightarrow> left self' ! j = left self ! j"
    using s'(5) by (simp add: self1_def)
  have later: "\<forall>j\<in>set ks. \<exists>cs. LeftCandidates ord self (int j) = Inr cs \<and>
                 left self' ! j = pick (\<lambda>u. valid_left self u j) cs (left self ! j)"
  proof
    fix j assume j: "j \<in> set ks"
    then have "j \<noteq> k" using ks1(3) by auto
    then have "left self1 ! j = left self ! j" by (simp add: self1_def)
    then show "\<exists>cs. LeftCandidates ord self (int j) = Inr cs \<and>
                 left self' ! j = pick (\<lambda>u. valid_left self u j) cs (left self ! j)"
      using s'(6) j same_training_candidates(1)[OF st, of ord] same_training_valid(1)[OF st]
      by auto
  qed
  show ?case
    using run same_training_trans[OF st s'(2)] s'(3,4) at_k other later cs
    by (intro exI[of _ self']) (auto simp: self1_def)
qed

lemma right_loop_result:
  assumes "set_order ord" "wf_self self" "length (right self) = num_attributes self"
    "\<forall>k\<in>set ks. k < num_attributes self" "distinct ks"
  shows "\<exists>self'. right_loop ord self ks = Inr self' \<and> same_training self self' \<and>
           left self' = left self \<and> length (right self') = length (right self) \<and>
           (\<forall>k. k \<notin> set ks \<longrightarrow> right self' ! k = right self ! k) \<and>
           (\<forall>k\<in>set ks. \<exists>cs. RightCandidates ord self (int k) = Inr cs \<and>
                 right self' ! k = pick (\<lambda>u. valid_right self u k) cs (right self ! k))"
  using assms(2-)
proof (induction ks arbitrary: self)
  case Nil
  then show ?case by (simp add: same_training_refl)
next
  case (Cons k ks)
  have k: "k < num_attributes self" using Cons.prems by simp
  obtain cs where cs: "RightCandidates ord self (int k) = Inr cs"
    using RightCandidates_wf[OF assms(1) Cons.prems(1) k] by blast
  define self1 where "self1 = self\<lparr>right := (right self)[k := pick (\<lambda>u. valid_right self u k) cs (right self ! k)]\<rparr>"
  have t: "try_right ord self k cs = Inr self1"
    unfolding self1_def
    by (rule try_right_result) (simp_all add: IsValidRight_wf[OF assms(1) Cons.prems(1) k] Cons.prems(2) k)
  have st: "same_training self self1" by (simp add: self1_def same_training_def)
  have wf1: "wf_self self1" using Cons.prems(1) same_training_wf[OF st] by simp
  have len1: "length (right self1) = num_attributes self1" "num_attributes self1 = num_attributes self"
    using Cons.prems(2) by (simp_all add: self1_def)
  have ks1: "\<forall>k\<in>set ks. k < num_attributes self1" "distinct ks" "k \<notin> set ks"
    using Cons.prems(3,4) len1 by auto
  from Cons.IH[OF wf1 len1(1) ks1(1,2)] obtain self' where s':
    "right_loop ord self1 ks = Inr self'" "same_training self1 self'"
    "left self' = left self1" "length (right self') = length (right self1)"
    "\<forall>j. j \<notin> set ks \<longrightarrow> right self' ! j = right self1 ! j"
    "\<forall>j\<in>set ks. \<exists>cs. RightCandidates ord self1 (int j) = Inr cs \<and>
                 right self' ! j = pick (\<lambda>u. valid_right self1 u j) cs (right self1 ! j)"
    by blast
  have run: "right_loop ord self (k # ks) = Inr self'" by (simp add: cs t s'(1))
  have at_k: "right self' ! k = pick (\<lambda>u. valid_right self u k) cs (right self ! k)"
    using s'(5) ks1(3) k Cons.prems(2) by (simp add: self1_def)
  have other: "\<forall>j. j \<notin> set (k # ks) \<longrightarrow> right self' ! j = right self ! j"
    using s'(5) by (simp add: self1_def)
  have later: "\<forall>j\<in>set ks. \<exists>cs. RightCandidates ord self (int j) = Inr cs \<and>
                 right self' ! j = pick (\<lambda>u. valid_right self u j) cs (right self ! j)"
  proof
    fix j assume j: "j \<in> set ks"
    then have "j \<noteq> k" using ks1(3) by auto
    then have "right self1 ! j = right self ! j" by (simp add: self1_def)
    then show "\<exists>cs. RightCandidates ord self (int j) = Inr cs \<and>
                 right self' ! j = pick (\<lambda>u. valid_right self u j) cs (right self ! j)"
      using s'(6) j same_training_candidates(2)[OF st, of ord] same_training_valid(2)[OF st]
      by auto
  qed
  show ?case
    using run same_training_trans[OF st s'(2)] s'(3,4) at_k other later cs
    by (intro exI[of _ self']) (auto simp: self1_def)
qed

text \<open>What the constructor returns on well-formed training input.\<close>

lemma init_result:
  assumes "set_order ord" "wf_training docs lbls"
  shows "\<exists>w. init ord docs lbls = Inr w \<and> labels w = lbls \<and> examples w = docs \<and>
           num_attributes w = length (hd lbls) \<and> wf_self w \<and>
           length (left w) = num_attributes w \<and> length (right w) = num_attributes w \<and>
           (\<forall>k<num_attributes w. \<exists>cs. LeftCandidates ord w (int k) = Inr cs \<and>
                 left w ! k = pick (\<lambda>u. valid_left w u k) cs []) \<and>
           (\<forall>k<num_attributes w. \<exists>cs. RightCandidates ord w (int k) = Inr cs \<and>
                 right w ! k = pick (\<lambda>u. valid_right w u k) cs [])"
proof -
  define n where "n = length (hd lbls)"
  define s0 where "s0 = \<lparr>labels = lbls, examples = docs, num_attributes = n,
                         left = replicate n [], right = replicate n []\<rparr>"
  have ne: "lbls \<noteq> []" using assms(2) by (auto simp: wf_training_def)
  then have g: "getitem lbls 0 = Inr (hd lbls)"
    by (cases lbls) (simp_all add: getitem_def)
  have i0: "init ord docs lbls
            = (case GetValidLeft ord s0 of Inl e \<Rightarrow> Inl e | Inr self \<Rightarrow> GetValidRight ord self)"
    using ne by (simp add: init_def g s0_def n_def)
  have wf0: "wf_self s0" using assms(2) by (simp add: wf_self_def s0_def n_def)
  have l0: "length (left s0) = num_attributes s0" "length (right s0) = num_attributes s0"
    by (simp_all add: s0_def)
  have r: "\<forall>k\<in>set [0..<num_attributes s0]. k < num_attributes s0" "distinct [0..<num_attributes s0]"
    by auto
  from left_loop_result[OF assms(1) wf0 l0(1) r] obtain s1 where s1:
    "left_loop ord s0 [0..<num_attributes s0] = Inr s1" "same_training s0 s1"
    "right s1 = right s0" "length (left s1) = length (left s0)"
    "\<forall>k\<in>set [0..<num_attributes s0]. \<exists>cs. LeftCandidates ord s0 (int k) = Inr cs \<and>
                 left s1 ! k = pick (\<lambda>u. valid_left s0 u k) cs (left s0 ! k)"
    by blast
  have n1: "num_attributes s1 = num_attributes s0" using s1(2) by (simp add: same_training_def)
  have wf1: "wf_self s1" using wf0 same_training_wf[OF s1(2)] by simp
  have l1: "length (right s1) = num_attributes s1" using s1(3) l0(2) n1 by simp
  have r1: "\<forall>k\<in>set [0..<num_attributes s1]. k < num_attributes s1" "distinct [0..<num_attributes s1]"
    by auto
  from right_loop_result[OF assms(1) wf1 l1 r1] obtain s2 where s2:
    "right_loop ord s1 [0..<num_attributes s1] = Inr s2" "same_training s1 s2"
    "left s2 = left s1" "length (right s2) = length (right s1)"
    "\<forall>k\<in>set [0..<num_attributes s1]. \<exists>cs. RightCandidates ord s1 (int k) = Inr cs \<and>
                 right s2 ! k = pick (\<lambda>u. valid_right s1 u k) cs (right s1 ! k)"
    by blast
  have st02: "same_training s0 s2" using same_training_trans[OF s1(2) s2(2)] .
  have run: "init ord docs lbls = Inr s2"
    by (simp add: i0 GetValidLeft_def GetValidRight_def s1(1) s2(1))
  have f: "labels s2 = lbls" "examples s2 = docs" "num_attributes s2 = n"
    using st02 by (simp_all add: same_training_def s0_def)
  have lefts: "\<forall>k<num_attributes s2. \<exists>cs. LeftCandidates ord s2 (int k) = Inr cs \<and>
                 left s2 ! k = pick (\<lambda>u. valid_left s2 u k) cs []"
  proof (intro allI impI)
    fix k assume k: "k < num_attributes s2"
    then have "k \<in> set [0..<num_attributes s0]" using f by (simp add: s0_def)
    with s1(5) obtain cs where "LeftCandidates ord s0 (int k) = Inr cs"
      "left s1 ! k = pick (\<lambda>u. valid_left s0 u k) cs (left s0 ! k)" by blast
    moreover have "left s0 ! k = []" using k f by (simp add: s0_def)
    ultimately show "\<exists>cs. LeftCandidates ord s2 (int k) = Inr cs \<and>
                 left s2 ! k = pick (\<lambda>u. valid_left s2 u k) cs []"
      using same_training_candidates(1)[OF st02, of ord] same_training_valid(1)[OF st02] s2(3)
      by auto
  qed
  have rights: "\<forall>k<num_attributes s2. \<exists>cs. RightCandidates ord s2 (int k) = Inr cs \<and>
                 right s2 ! k = pick (\<lambda>u. valid_right s2 u k) cs []"
  proof (intro allI impI)
    fix k assume k: "k < num_attributes s2"
    then have "k \<in> set [0..<num_attributes s1]" using f n1 by (simp add: s0_def)
    with s2(5) obtain cs where "RightCandidates ord s1 (int k) = Inr cs"
      "right s2 ! k = pick (\<lambda>u. valid_right s1 u k) cs (right s1 ! k)" by blast
    moreover have "right s1 ! k = []" using k f s1(3) by (simp add: s0_def)
    ultimately show "\<exists>cs. RightCandidates ord s2 (int k) = Inr cs \<and>
                 right s2 ! k = pick (\<lambda>u. valid_right s2 u k) cs []"
      using same_training_candidates(2)[OF s2(2), of ord] same_training_valid(2)[OF s2(2)]
      by auto
  qed
  have "wf_self s2" using wf1 same_training_wf[OF s2(2)] by simp
  moreover have "length (left s2) = num_attributes s2" "length (right s2) = num_attributes s2"
    using s2(3,4) s1(3,4) l0 f by (simp_all add: s0_def)
  ultimately show ?thesis using run f lefts rights by (auto simp: n_def)
qed

section \<open>Claims settled on the definitions alone\<close>

text \<open>
  C5. \<open>ProperSuffix(u, s)\<close> is True exactly when \<open>s\<close> ends with \<open>u\<close> and \<open>u\<close> does not
  occur in \<open>s\<close> with the final occurrence (the last \<open>len(u)\<close> characters) cut off;
  \<open>ProperSuffix("cde", "abcde")\<close> is True and \<open>ProperSuffix("de", "abcdede")\<close> is False.
\<close>

theorem C5_ProperSuffix_spec:
  "ProperSuffix u s = (suffix u s \<and> \<not> sublist u (take (length s - length u) s))
   \<and> ProperSuffix ''cde'' ''abcde'' \<and> \<not> ProperSuffix ''de'' ''abcdede''"
proof -
  have a: "ProperSuffix ''cde'' ''abcde''"
    by (simp add: ProperSuffix_def endswith_def str_in_def slice_def clamp_index_def startswith_def)
  have b: "\<not> ProperSuffix ''de'' ''abcdede''"
    by (simp add: ProperSuffix_def endswith_def str_in_def slice_def clamp_index_def startswith_def)
  show ?thesis using a b ProperSuffix_iff by blast
qed

text \<open>
  C7. Construction with an empty label sequence raises ValueError, whatever the documents
  are, before any delimiter is learned; no wrapper is returned.
\<close>

theorem C7_init_no_examples: "init ord docs [] = Inl ValueError"
  by (simp add: init_def)

text \<open>
  C8. \<open>execLR\<close> leaves the object as it was, so the delimiter tables are unchanged and a
  second call on the same document returns the same attributes.
\<close>

theorem C8_execLR_frame:
  "snd (execLR self P) = self
   \<and> left (snd (execLR self P)) = left self
   \<and> right (snd (execLR self P)) = right self
   \<and> fst (execLR (snd (execLR self P)) P) = fst (execLR self P)"
  by (simp add: execLR_def)

section \<open>Candidates and the chosen delimiter\<close>

lemma pick_none: "\<forall>u\<in>set cs. \<not> V u \<Longrightarrow> pick V cs d = d"
  by (induction cs) (auto simp: pick_def)

lemma pick_find: "pick V cs d = (case List.find V cs of None \<Rightarrow> d | Some u \<Rightarrow> u)"
  by (simp add: pick_def)

lemma pick_cases:
  "(pick V cs d = d \<and> (\<forall>u\<in>set cs. \<not> V u)) \<or> (pick V cs d \<in> set cs \<and> V (pick V cs d))"
  by (induction cs) (auto simp: pick_def)

lemma min_by_len_Inr:
  "min_by_len nb = Inr m \<Longrightarrow> m \<in> set nb \<and> (\<forall>s\<in>set nb. length m \<le> length s)"
  using min_by_len_ok[of nb] by (cases nb) auto

lemma nonempty_suffixes: "{drop i m |i. i < length m} = {u. suffix u m \<and> u \<noteq> []}"
proof (intro set_eqI iffI)
  fix u assume "u \<in> {drop i m |i. i < length m}"
  then show "u \<in> {u. suffix u m \<and> u \<noteq> []}" by (auto simp: suffix_drop)
next
  fix u assume "u \<in> {u. suffix u m \<and> u \<noteq> []}"
  then obtain p where p: "m = p @ u" "u \<noteq> []" by (auto simp: suffix_def)
  then have "u = drop (length p) m" "length p < length m" by auto
  then show "u \<in> {drop i m |i. i < length m}" by blast
qed

lemma strict_prefixes: "{take i m |i. i < length m} = {u. strict_prefix u m}"
proof (intro set_eqI iffI)
  fix u assume "u \<in> {take i m |i. i < length m}"
  then obtain i where "u = take i m" "i < length m" by blast
  then show "u \<in> {u. strict_prefix u m}"
    by (auto simp: strict_prefix_def take_is_prefix)
next
  fix u assume "u \<in> {u. strict_prefix u m}"
  then obtain s where s: "m = u @ s" "s \<noteq> []" by (auto simp: strict_prefix_def prefix_def)
  then have "u = take (length u) m" "length u < length m" by auto
  then show "u \<in> {take i m |i. i < length m}" by blast
qed

lemma LeftCandidates_shape:
  assumes "set_order ord" "LeftCandidates ord self k = Inr cs"
  shows "\<exists>nb m. LeftNeighbors ord self k = Inr nb \<and> min_by_len nb = Inr m \<and> distinct cs \<and>
           set cs = {u. suffix u m \<and> u \<noteq> []}"
proof -
  from assms(2) obtain nb m where nb: "LeftNeighbors ord self k = Inr nb" "min_by_len nb = Inr m"
    "cs = ord (map (\<lambda>i. slice m (Some (int i)) None) [0..<length m])"
    by (auto simp: LeftCandidates_def split: sum.splits)
  have "set cs = {drop i m |i. i < length m}"
    using assms(1) by (auto simp: nb(3) set_order_set slice_from)
  then show ?thesis using nb assms(1) by (simp add: nonempty_suffixes set_order_distinct)
qed

lemma RightCandidates_shape:
  assumes "set_order ord" "RightCandidates ord self k = Inr cs"
  shows "\<exists>nb m. RightNeighbors ord self k = Inr nb \<and> min_by_len nb = Inr m \<and> distinct cs \<and>
           set cs = {u. strict_prefix u m}"
proof -
  from assms(2) obtain nb m where nb: "RightNeighbors ord self k = Inr nb" "min_by_len nb = Inr m"
    "cs = ord (map (\<lambda>i. slice m None (Some (int i))) [0..<length m])"
    by (auto simp: RightCandidates_def split: sum.splits)
  have "set cs = {take i m |i. i < length m}"
    using assms(1) by (auto simp: nb(3) set_order_set slice_to)
  then show ?thesis using nb assms(1) by (simp add: strict_prefixes set_order_distinct)
qed

lemma valid_right_Nil: "wf_self self \<Longrightarrow> \<not> valid_right self [] k"
  using wf_self_examples[of self]
  by (auto simp: valid_right_def list_all_iff str_in_sublist)

section \<open>Claims about the learner\<close>

text \<open>
  C6. On well-formed training input (at least one document, one label list per document,
  each with as many spans as the first) construction returns a wrapper, and for every
  attribute \<open>k\<close> whose candidates all fail validation \<open>left[k]\<close> (respectively
  \<open>right[k]\<close>) is the empty string it was initialised to.
\<close>

theorem C6_no_valid_candidate:
  assumes "set_order ord" "wf_training docs lbls"
  shows "\<exists>w. init ord docs lbls = Inr w \<and>
     (\<forall>k<num_attributes w.
        (\<exists>cs. LeftCandidates ord w (int k) = Inr cs \<and>
              ((\<forall>u\<in>set cs. IsValidLeft ord w u (int k) = Inr False) \<longrightarrow> left w ! k = [])) \<and>
        (\<exists>cs. RightCandidates ord w (int k) = Inr cs \<and>
              ((\<forall>u\<in>set cs. IsValidRight ord w u (int k) = Inr False) \<longrightarrow> right w ! k = [])))"
proof -
  from init_result[OF assms] obtain w where w: "init ord docs lbls = Inr w" "wf_self w"
    "\<forall>k<num_attributes w. \<exists>cs. LeftCandidates ord w (int k) = Inr cs \<and>
                 left w ! k = pick (\<lambda>u. valid_left w u k) cs []"
    "\<forall>k<num_attributes w. \<exists>cs. RightCandidates ord w (int k) = Inr cs \<and>
                 right w ! k = pick (\<lambda>u. valid_right w u k) cs []"
    by blast
  have "\<exists>cs. LeftCandidates ord w (int k) = Inr cs \<and>
              ((\<forall>u\<in>set cs. IsValidLeft ord w u (int k) = Inr False) \<longrightarrow> left w ! k = [])"
    if k: "k < num_attributes w" for k
  proof -
    from w(3) k obtain cs where cs: "LeftCandidates ord w (int k) = Inr cs"
      "left w ! k = pick (\<lambda>u. valid_left w u k) cs []" by blast
    show ?thesis using cs pick_none[of cs "\<lambda>u. valid_left w u k" "[]"]
      by (auto simp: IsValidLeft_wf[OF assms(1) w(2) k])
  qed
  moreover have "\<exists>cs. RightCandidates ord w (int k) = Inr cs \<and>
              ((\<forall>u\<in>set cs. IsValidRight ord w u (int k) = Inr False) \<longrightarrow> right w ! k = [])"
    if k: "k < num_attributes w" for k
  proof -
    from w(4) k obtain cs where cs: "RightCandidates ord w (int k) = Inr cs"
      "right w ! k = pick (\<lambda>u. valid_right w u k) cs []" by blast
    show ?thesis using cs pick_none[of cs "\<lambda>u. valid_right w u k" "[]"]
      by (auto simp: IsValidRight_wf[OF assms(1) w(2) k])
  qed
  ultimately show ?thesis using w(1) by blast
qed

text \<open>
  The two documents \<open>XabY\<close> and \<open>XaY\<close>: the only right candidate of attribute 0 is the
  empty string, it fails validation, and \<open>right[0]\<close> stays empty.
\<close>

theorem C6_no_valid_candidate_witness:
  "set_order remdups \<and> wf_training [''XabY'', ''XaY''] [[(0, 1), (3, 4)], [(0, 1), (2, 3)]] \<and>
   (\<exists>w. init remdups [''XabY'', ''XaY''] [[(0, 1), (3, 4)], [(0, 1), (2, 3)]] = Inr w \<and>
        RightCandidates remdups w 0 = Inr [''''] \<and>
        IsValidRight remdups w '''' 0 = Inr False \<and> right w ! 0 = [])"
proof -
  let ?D = "[''XabY'', ''XaY'']"
  let ?L = "[[(0, 1), (3, 4)], [(0, 1), (2, 3)]] :: (int \<times> int) list list"
  have so: "set_order remdups" by (simp add: set_order_def)
  have wf: "wf_training ?D ?L" by (simp add: wf_training_def)
  from C6_no_valid_candidate[OF so wf] obtain w where w: "init remdups ?D ?L = Inr w"
    "\<forall>k<num_attributes w. (\<exists>cs. RightCandidates remdups w (int k) = Inr cs \<and>
              ((\<forall>u\<in>set cs. IsValidRight remdups w u (int k) = Inr False) \<longrightarrow> right w ! k = []))"
    by blast
  have ev: "init remdups ?D ?L = Inr \<lparr>labels = ?L, examples = ?D, num_attributes = 2,
              left = [[], []], right = [[], []]\<rparr>"
    by code_simp
  have weq: "w = \<lparr>labels = ?L, examples = ?D, num_attributes = 2,
              left = [[], []], right = [[], []]\<rparr>" using w(1) ev by simp
  have c: "RightCandidates remdups w 0 = Inr ['''']" unfolding weq by code_simp
  have v: "IsValidRight remdups w '''' 0 = Inr False" unfolding weq by code_simp
  have "0 < num_attributes w" by (simp add: weq)
  with w(2) c v have "right w ! 0 = []" by fastforce
  then show ?thesis using so wf w(1) c v by blast
qed

text \<open>
  C10. With at least one training document (well-formed input), \<open>IsValidRight("", k)\<close> is
  False for every attribute \<open>k\<close>; so a right delimiter that validates is not empty, and
  \<open>right[k]\<close> is empty only when every candidate failed validation.
\<close>

theorem C10_empty_right_delimiter:
  assumes "set_order ord" "wf_training docs lbls"
  shows "\<exists>w. init ord docs lbls = Inr w \<and>
     (\<forall>k<num_attributes w.
        IsValidRight ord w [] (int k) = Inr False \<and>
        (\<forall>u. IsValidRight ord w u (int k) = Inr True \<longrightarrow> u \<noteq> []) \<and>
        (right w ! k = [] \<longrightarrow>
           (\<exists>cs. RightCandidates ord w (int k) = Inr cs \<and>
                 (\<forall>u\<in>set cs. IsValidRight ord w u (int k) = Inr False))))"
proof -
  from init_result[OF assms] obtain w where w: "init ord docs lbls = Inr w" "wf_self w"
    "\<forall>k<num_attributes w. \<exists>cs. RightCandidates ord w (int k) = Inr cs \<and>
                 right w ! k = pick (\<lambda>u. valid_right w u k) cs []"
    by blast
  have "IsValidRight ord w [] (int k) = Inr False \<and>
        (\<forall>u. IsValidRight ord w u (int k) = Inr True \<longrightarrow> u \<noteq> []) \<and>
        (right w ! k = [] \<longrightarrow>
           (\<exists>cs. RightCandidates ord w (int k) = Inr cs \<and>
                 (\<forall>u\<in>set cs. IsValidRight ord w u (int k) = Inr False)))"
    if k: "k < num_attributes w" for k
  proof -
    note v = IsValidRight_wf[OF assms(1) w(2) k]
    from w(3) k obtain cs where cs: "RightCandidates ord w (int k) = Inr cs"
      "right w ! k = pick (\<lambda>u. valid_right w u k) cs []" by blast
    have a: "IsValidRight ord w [] (int k) = Inr False"
      by (simp add: v valid_right_Nil[OF w(2)])
    have b: "\<forall>u. IsValidRight ord w u (int k) = Inr True \<longrightarrow> u \<noteq> []"
      using a by auto
    have c: "\<forall>u\<in>set cs. IsValidRight ord w u (int k) = Inr False" if "right w ! k = []"
      using pick_cases[of "\<lambda>u. valid_right w u k" cs "[]"] that cs(2) valid_right_Nil[OF w(2), of k]
      by (auto simp: v)
    show ?thesis using a b c cs(1) by blast
  qed
  then show ?thesis using w(1) by blast
qed

text \<open>The document \<open>XabY\<close>: \<open>a\<close> validates for attribute 0; attribute 1 has no candidate.\<close>

theorem C10_empty_right_delimiter_witness:
  "set_order remdups \<and> wf_training [''XabY''] [[(0, 1), (3, 4)]] \<and>
   (\<exists>w. init remdups [''XabY''] [[(0, 1), (3, 4)]] = Inr w \<and> right w = [''a'', ''''] \<and>
        IsValidRight remdups w '''' 0 = Inr False \<and>
        IsValidRight remdups w ''a'' 0 = Inr True \<and>
        RightCandidates remdups w 1 = Inr [])"
proof -
  let ?D = "[''XabY'']"
  let ?L = "[[(0, 1), (3, 4)]] :: (int \<times> int) list list"
  have so: "set_order remdups" by (simp add: set_order_def)
  have wf: "wf_training ?D ?L" by (simp add: wf_training_def)
  from C10_empty_right_delimiter[OF so wf] obtain w where w: "init remdups ?D ?L = Inr w"
    "\<forall>k<num_attributes w. IsValidRight remdups w [] (int k) = Inr False \<and>
        (\<forall>u. IsValidRight remdups w u (int k) = Inr True \<longrightarrow> u \<noteq> []) \<and>
        (right w ! k = [] \<longrightarrow>
           (\<exists>cs. RightCandidates remdups w (int k) = Inr cs \<and>
                 (\<forall>u\<in>set cs. IsValidRight remdups w u (int k) = Inr False)))"
    by blast
  have ev: "init remdups ?D ?L = Inr \<lparr>labels = ?L, examples = ?D, num_attributes = 2,
              left = [[], ''ab''], right = [''a'', []]\<rparr>"
    by code_simp
  have weq: "w = \<lparr>labels = ?L, examples = ?D, num_attributes = 2,
              left = [[], ''ab''], right = [''a'', []]\<rparr>" using w(1) ev by simp
  have "0 < num_attributes w" by (simp add: weq)
  with w(2) have a: "IsValidRight remdups w '''' 0 = Inr False" by fastforce
  have b: "IsValidRight remdups w ''a'' 0 = Inr True" unfolding weq by code_simp
  have c: "RightCandidates remdups w 1 = Inr []" unfolding weq by code_simp
  show ?thesis using so wf w(1) a b c by (auto simp: weq)
qed

text \<open>
  C4, as the code has it. On well-formed training input, for every attribute \<open>k\<close>: the left
  candidates are exactly the non-empty suffixes of a left neighbour of least length (the
  full string is one of them, the empty suffix is not), each once; \<open>left[k]\<close> is the first
  candidate in the iteration order of that set that passes \<open>IsValidLeft\<close>, or the empty
  string when none does. Every right candidate is a prefix of a right neighbour of least
  length, and \<open>right[k]\<close> is the first one in iteration order that passes \<open>IsValidRight\<close>,
  or the empty string.
\<close>

theorem C4_candidates_and_choice:
  assumes "set_order ord" "wf_training docs lbls"
  shows "\<exists>w. init ord docs lbls = Inr w \<and>
     (\<forall>k<num_attributes w.
        (\<exists>nb m cs. LeftNeighbors ord w (int k) = Inr nb \<and> m \<in> set nb \<and>
            (\<forall>s\<in>set nb. length m \<le> length s) \<and>
            LeftCandidates ord w (int k) = Inr cs \<and> distinct cs \<and>
            set cs = {u. suffix u m \<and> u \<noteq> []} \<and>
            left w ! k = (case List.find (\<lambda>u. IsValidLeft ord w u (int k) = Inr True) cs of
                            None \<Rightarrow> [] | Some u \<Rightarrow> u)) \<and>
        (\<exists>nb m cs. RightNeighbors ord w (int k) = Inr nb \<and> m \<in> set nb \<and>
            (\<forall>s\<in>set nb. length m \<le> length s) \<and>
            RightCandidates ord w (int k) = Inr cs \<and> distinct cs \<and>
            (\<forall>u\<in>set cs. prefix u m) \<and>
            right w ! k = (case List.find (\<lambda>u. IsValidRight ord w u (int k) = Inr True) cs of
                            None \<Rightarrow> [] | Some u \<Rightarrow> u)))"
proof -
  from init_result[OF assms] obtain w where w: "init ord docs lbls = Inr w" "wf_self w"
    "\<forall>k<num_attributes w. \<exists>cs. LeftCandidates ord w (int k) = Inr cs \<and>
                 left w ! k = pick (\<lambda>u. valid_left w u k) cs []"
    "\<forall>k<num_attributes w. \<exists>cs. RightCandidates ord w (int k) = Inr cs \<and>
                 right w ! k = pick (\<lambda>u. valid_right w u k) cs []"
    by blast
  have L: "\<exists>nb m cs. LeftNeighbors ord w (int k) = Inr nb \<and> m \<in> set nb \<and>
            (\<forall>s\<in>set nb. length m \<le> length s) \<and>
            LeftCandidates ord w (int k) = Inr cs \<and> distinct cs \<and>
            set cs = {u. suffix u m \<and> u \<noteq> []} \<and>
            left w ! k = (case List.find (\<lambda>u. IsValidLeft ord w u (int k) = Inr True) cs of
                            None \<Rightarrow> [] | Some u \<Rightarrow> u)"
    if k: "k < num_attributes w" for k
  proof -
    from w(3) k obtain cs where cs: "LeftCandidates ord w (int k) = Inr cs"
      "left w ! k = pick (\<lambda>u. valid_left w u k) cs []" by blast
    from LeftCandidates_shape[OF assms(1) cs(1)] obtain nb m where nb:
      "LeftNeighbors ord w (int k) = Inr nb" "min_by_len nb = Inr m" "distinct cs"
      "set cs = {u. suffix u m \<and> u \<noteq> []}" by blast
    have v: "(\<lambda>u. IsValidLeft ord w u (int k) = Inr True) = (\<lambda>u. valid_left w u k)"
      by (simp add: IsValidLeft_wf[OF assms(1) w(2) k])
    show ?thesis
      using cs nb min_by_len_Inr[OF nb(2)] unfolding v pick_find by blast
  qed
  have R: "\<exists>nb m cs. RightNeighbors ord w (int k) = Inr nb \<and> m \<in> set nb \<and>
            (\<forall>s\<in>set nb. length m \<le> length s) \<and>
            RightCandidates ord w (int k) = Inr cs \<and> distinct cs \<and>
            (\<forall>u\<in>set cs. prefix u m) \<and>
            right w ! k = (case List.find (\<lambda>u. IsValidRight ord w u (int k) = Inr True) cs of
                            None \<Rightarrow> [] | Some u \<Rightarrow> u)"
    if k: "k < num_attributes w" for k
  proof -
    from w(4) k obtain cs where cs: "RightCandidates ord w (int k) = Inr cs"
      "right w ! k = pick (\<lambda>u. valid_right w u k) cs []" by blast
    from RightCandidates_shape[OF assms(1) cs(1)] obtain nb m where nb:
      "RightNeighbors ord w (int k) = Inr nb" "min_by_len nb = Inr m" "distinct cs"
      "set cs = {u. strict_prefix u m}" by blast
    have p: "\<forall>u\<in>set cs. prefix u m" using nb(4) by (auto simp: strict_prefix_def)
    have v: "(\<lambda>u. IsValidRight ord w u (int k) = Inr True) = (\<lambda>u. valid_right w u k)"
      by (simp add: IsValidRight_wf[OF assms(1) w(2) k])
    show ?thesis
      using cs nb(1,3) p min_by_len_Inr[OF nb(2)] unfolding v pick_find by blast
  qed
  show ?thesis using w(1) L R by blast
qed

text \<open>The theorem at the one-document training set \<open>abXcd\<close> with the attribute \<open>X\<close>.\<close>

theorem C4_candidates_and_choice_witness:
  "set_order remdups \<and> wf_training [''abXcd''] [[(2, 3)]] \<and>
   (\<exists>w. init remdups [''abXcd''] [[(2, 3)]] = Inr w \<and>
     (\<forall>k<num_attributes w.
        (\<exists>nb m cs. LeftNeighbors remdups w (int k) = Inr nb \<and> m \<in> set nb \<and>
            (\<forall>s\<in>set nb. length m \<le> length s) \<and>
            LeftCandidates remdups w (int k) = Inr cs \<and> distinct cs \<and>
            set cs = {u. suffix u m \<and> u \<noteq> []} \<and>
            left w ! k = (case List.find (\<lambda>u. IsValidLeft remdups w u (int k) = Inr True) cs of
                            None \<Rightarrow> [] | Some u \<Rightarrow> u)) \<and>
        (\<exists>nb m cs. RightNeighbors remdups w (int k) = Inr nb \<and> m \<in> set nb \<and>
            (\<forall>s\<in>set nb. length m \<le> length s) \<and>
            RightCandidates remdups w (int k) = Inr cs \<and> distinct cs \<and>
            (\<forall>u\<in>set cs. prefix u m) \<and>
            right w ! k = (case List.find (\<lambda>u. IsValidRight remdups w u (int k) = Inr True) cs of
                            None \<Rightarrow> [] | Some u \<Rightarrow> u))))"
proof -
  have so: "set_order remdups" by (simp add: set_order_def)
  have wf: "wf_training [''abXcd''] [[(2, 3)]]" by (simp add: wf_training_def)
  show ?thesis using C4_candidates_and_choice[OF so wf] so wf by blast
qed

text \<open>
  The claim as stated fails on \<open>abXcd\<close>: the left candidates of the attribute are \<open>ab\<close> and
  \<open>b\<close>, without the empty suffix, and the right candidates are the empty string and \<open>c\<close>,
  without the full neighbour \<open>cd\<close>.
\<close>

theorem C4_counterexample:
  "init remdups [''abXcd''] [[(2, 3)]]
     = Inr \<lparr>labels = [[(2, 3)]], examples = [''abXcd''], num_attributes = 1,
            left = [''ab''], right = [''c'']\<rparr> \<and>
   LeftCandidates remdups \<lparr>labels = [[(2, 3)]], examples = [''abXcd''], num_attributes = 1,
            left = [''ab''], right = [''c'']\<rparr> 0 = Inr [''ab'', ''b''] \<and>
   [] \<notin> set [''ab'', ''b''] \<and>
   RightCandidates remdups \<lparr>labels = [[(2, 3)]], examples = [''abXcd''], num_attributes = 1,
            left = [''ab''], right = [''c'']\<rparr> 0 = Inr ['''', ''c''] \<and>
   ''cd'' \<notin> set ['''', ''c'']"
  by code_simp

section \<open>Claims about extraction\<close>

lemma slice_sublist: "sublist (slice s lo hi) s"
proof -
  have "sublist (take n (drop a s)) s" for n a
    by (meson sublist_drop sublist_order.order_trans sublist_take)
  then show ?thesis by (simp add: slice_def Let_def)
qed

lemma execLR_loop_length: "length (execLR_loop lrs P attr) = length attr + length lrs"
  by (induction lrs P attr rule: execLR_loop.induct) (simp_all add: Let_def)

lemma execLR_loop_sublist:
  assumes "\<forall>a\<in>set attr. sublist a Q" "sublist P Q"
  shows "\<forall>a\<in>set (execLR_loop lrs P attr). sublist a Q"
  using assms
proof (induction lrs P attr rule: execLR_loop.induct)
  case (1 P attr)
  then show ?case by simp
next
  case (2 l r lrs P attr)
  define l_idx where "l_idx = str_find P l + int (length l)"
  define r_idx where "r_idx = str_find (slice P (Some l_idx) None) r + l_idx"
  have a: "sublist (slice P (Some l_idx) (Some r_idx)) Q"
    using slice_sublist "2.prems"(2) sublist_order.order_trans by blast
  have b: "sublist (slice P (Some r_idx) None) Q"
    using slice_sublist "2.prems"(2) sublist_order.order_trans by blast
  have "\<forall>a\<in>set (execLR_loop lrs (slice P (Some r_idx) None)
                      (attr @ [slice P (Some l_idx) (Some r_idx)])). sublist a Q"
    using "2.IH"[OF l_idx_def r_idx_def] "2.prems"(1) a b by auto
  then show ?case by (simp add: Let_def l_idx_def r_idx_def)
qed

lemma str_find_miss: "\<not> str_in u s \<Longrightarrow> str_find s u = - 1"
  by (simp add: str_in_def)

lemma page_after_append: "page_after (xs @ ys) P = page_after ys (page_after xs P)"
  by (induction xs P rule: page_after.induct) (simp_all add: Let_def)

lemma page_after_sublist: "sublist (page_after lrs P) P"
proof (induction lrs P rule: page_after.induct)
  case (1 P)
  then show ?case by simp
next
  case (2 l r lrs P)
  define l_idx where "l_idx = str_find P l + int (length l)"
  define r_idx where "r_idx = str_find (slice P (Some l_idx) None) r + l_idx"
  have "sublist (page_after lrs (slice P (Some r_idx) None)) (slice P (Some r_idx) None)"
    using "2.IH"[OF l_idx_def r_idx_def] .
  then have "sublist (page_after lrs (slice P (Some r_idx) None)) P"
    using slice_sublist sublist_order.order_trans by blast
  then show ?case by (simp add: Let_def l_idx_def r_idx_def)
qed

lemma execLR_loop_keeps: "\<exists>ys. execLR_loop lrs P attr = attr @ ys"
proof (induction lrs P attr rule: execLR_loop.induct)
  case (1 P attr)
  then show ?case by simp
next
  case (2 l r lrs P attr)
  define l_idx where "l_idx = str_find P l + int (length l)"
  define r_idx where "r_idx = str_find (slice P (Some l_idx) None) r + l_idx"
  from "2.IH"[OF l_idx_def r_idx_def] obtain ys where
    "execLR_loop lrs (slice P (Some r_idx) None) (attr @ [slice P (Some l_idx) (Some r_idx)])
     = (attr @ [slice P (Some l_idx) (Some r_idx)]) @ ys" by blast
  then show ?case by (simp add: Let_def l_idx_def r_idx_def)
qed

lemma execLR_loop_nth:
  assumes "k < length lrs"
  shows "execLR_loop lrs P attr ! (length attr + k)
         = (let Q = page_after (take k lrs) P;
                l_idx = str_find Q (fst (lrs ! k)) + int (length (fst (lrs ! k)));
                r_idx = str_find (slice Q (Some l_idx) None) (snd (lrs ! k)) + l_idx
            in slice Q (Some l_idx) (Some r_idx))"
  using assms
proof (induction lrs P attr arbitrary: k rule: execLR_loop.induct)
  case (1 P attr)
  then show ?case by simp
next
  case (2 l r lrs P attr)
  define l_idx where "l_idx = str_find P l + int (length l)"
  define r_idx where "r_idx = str_find (slice P (Some l_idx) None) r + l_idx"
  define v where "v = slice P (Some l_idx) (Some r_idx)"
  define P' where "P' = slice P (Some r_idx) None"
  have step: "execLR_loop ((l, r) # lrs) P attr = execLR_loop lrs P' (attr @ [v])"
    by (simp add: Let_def l_idx_def r_idx_def v_def P'_def)
  show ?case
  proof (cases k)
    case 0
    obtain ys where "execLR_loop lrs P' (attr @ [v]) = (attr @ [v]) @ ys"
      using execLR_loop_keeps by blast
    then have "execLR_loop ((l, r) # lrs) P attr ! length attr = v"
      using step by (simp add: nth_append)
    then show ?thesis using 0 by (simp add: Let_def v_def l_idx_def r_idx_def)
  next
    case (Suc k')
    then have k': "k' < length lrs" using "2.prems" by simp
    have "execLR_loop lrs P' (attr @ [v]) ! (length (attr @ [v]) + k')
         = (let Q = page_after (take k' lrs) P';
                l_idx = str_find Q (fst (lrs ! k')) + int (length (fst (lrs ! k')));
                r_idx = str_find (slice Q (Some l_idx) None) (snd (lrs ! k')) + l_idx
            in slice Q (Some l_idx) (Some r_idx))"
      unfolding P'_def v_def by (rule "2.IH"[OF l_idx_def r_idx_def k'])
    moreover have "page_after (take k ((l, r) # lrs)) P = page_after (take k' lrs) P'"
      by (simp add: Suc Let_def l_idx_def r_idx_def P'_def)
    ultimately show ?thesis using step Suc by simp
  qed
qed

text \<open>
  C3, as the code has it. \<open>execLR\<close> never aborts and never reports a miss: it returns
  exactly one string per delimiter pair, each a contiguous piece of the document. For
  attribute \<open>k\<close>, with \<open>Q\<close> the page the loop holds when it reaches \<open>k\<close>: the value is
  \<open>Q[l_idx:r_idx]\<close>; when \<open>left[k]\<close> does not occur in \<open>Q\<close>, \<open>l_idx\<close> is
  \<open>len(left[k]) - 1\<close> (the \<open>-1\<close> of \<open>find\<close> plus the length); when \<open>right[k]\<close> does not
  occur in \<open>Q[l_idx:]\<close>, \<open>r_idx\<close> is \<open>l_idx - 1\<close>; and the later attributes are searched
  in \<open>Q[r_idx:]\<close>, so they depend on the slice a miss produced.
\<close>

theorem C3_no_miss_indicator:
  assumes "k < length (left self)" "k < length (right self)"
  shows "length (fst (execLR self P)) = min (length (left self)) (length (right self)) \<and>
     (\<forall>a\<in>set (fst (execLR self P)). sublist a P) \<and>
     (let Q = page_after (take k (zip (left self) (right self))) P;
          l = left self ! k; r = right self ! k;
          l_idx = (if str_in l Q then str_find Q l + int (length l) else int (length l) - 1);
          r_idx = (if str_in r (slice Q (Some l_idx) None)
                   then str_find (slice Q (Some l_idx) None) r + l_idx else l_idx - 1)
      in sublist Q P \<and>
         fst (execLR self P) ! k = slice Q (Some l_idx) (Some r_idx) \<and>
         page_after (take (Suc k) (zip (left self) (right self))) P = slice Q (Some r_idx) None)"
proof -
  let ?lrs = "zip (left self) (right self)"
  have k: "k < length ?lrs" using assms by simp
  have a: "length (fst (execLR self P)) = min (length (left self)) (length (right self))"
    by (simp add: execLR_def execLR_loop_length)
  have b: "\<forall>a\<in>set (fst (execLR self P)). sublist a P"
    using execLR_loop_sublist[of "[]" P P ?lrs] by (simp add: execLR_def)
  define Q where "Q = page_after (take k ?lrs) P"
  define l where "l = left self ! k"
  define r where "r = right self ! k"
  define l_idx where "l_idx = (if str_in l Q then str_find Q l + int (length l) else int (length l) - 1)"
  define r_idx where "r_idx = (if str_in r (slice Q (Some l_idx) None)
                   then str_find (slice Q (Some l_idx) None) r + l_idx else l_idx - 1)"
  have lk: "?lrs ! k = (l, r)" using assms by (simp add: l_def r_def)
  have li: "str_find Q l + int (length l) = l_idx"
    by (simp add: l_idx_def str_find_miss)
  have ri: "str_find (slice Q (Some l_idx) None) r + l_idx = r_idx"
    by (simp add: r_idx_def str_find_miss)
  have c: "sublist Q P" unfolding Q_def by (rule page_after_sublist)
  have d: "fst (execLR self P) ! k = slice Q (Some l_idx) (Some r_idx)"
    using execLR_loop_nth[OF k, of P "[]"]
    by (simp add: execLR_def Let_def lk Q_def[symmetric] li ri)
  have "take (Suc k) ?lrs = take k ?lrs @ [(l, r)]"
    using k lk by (simp add: take_Suc_conv_app_nth)
  then have e: "page_after (take (Suc k) ?lrs) P = slice Q (Some r_idx) None"
    by (simp add: page_after_append Q_def[symmetric] Let_def li ri)
  show ?thesis
    using a b c d e unfolding Let_def Q_def l_def r_def l_idx_def r_idx_def by blast
qed

text \<open>
  The wrapper learned from \<open>xAy=Bw!\<close> on the query \<open>abc y=Qw\<close>: \<open>x\<close> does not occur,
  attribute 0 is the slice from index 0 up to the first \<open>y\<close>, and attribute 1 is
  extracted from what follows.
\<close>

theorem C3_no_miss_indicator_witness:
  "init remdups [''xAy=Bw!''] [[(1, 2), (4, 5)]]
     = Inr \<lparr>labels = [[(1, 2), (4, 5)]], examples = [''xAy=Bw!''], num_attributes = 2,
            left = [''x'', ''y=''], right = [''y'', ''w'']\<rparr> \<and>
   \<not> str_in ''x'' ''abc y=Qw'' \<and>
   fst (execLR \<lparr>labels = [[(1, 2), (4, 5)]], examples = [''xAy=Bw!''], num_attributes = 2,
            left = [''x'', ''y=''], right = [''y'', ''w'']\<rparr> ''abc y=Qw'') ! 0
     = slice ''abc y=Qw'' (Some (int (length ''x'') - 1)) (Some 4) \<and>
   slice ''abc y=Qw'' (Some (int (length ''x'') - 1)) (Some 4) = ''abc '' \<and>
   page_after (take (Suc 0) (zip [''x'', ''y=''] [''y'', ''w''])) ''abc y=Qw'' = ''y=Qw'' \<and>
   fst (execLR \<lparr>labels = [[(1, 2), (4, 5)]], examples = [''xAy=Bw!''], num_attributes = 2,
            left = [''x'', ''y=''], right = [''y'', ''w'']\<rparr> ''abc y=Qw'') = [''abc '', ''Q'']"
proof -
  let ?W = "\<lparr>labels = [[(1, 2), (4, 5)]], examples = [''xAy=Bw!''], num_attributes = 2,
            left = [''x'', ''y=''], right = [''y'', ''w'']\<rparr>"
  let ?P = "''abc y=Qw''"
  have i: "init remdups [''xAy=Bw!''] [[(1, 2), (4, 5)]] = Inr ?W" by code_simp
  have h: "0 < length (left ?W)" "0 < length (right ?W)" by simp_all
  have m: "str_in ''x'' ?P = False" by code_simp
  have f: "str_in ''y'' (slice ?P (Some 0) None) = True"
    "str_find (slice ?P (Some 0) None) ''y'' = 4" by code_simp+
  have s: "slice ?P (Some (int (length ''x'') - 1)) (Some 4) = ''abc ''"
    "slice ?P (Some 4) None = ''y=Qw''" by code_simp+
  have all: "fst (execLR ?W ?P) = [''abc '', ''Q'']" by code_simp
  from C3_no_miss_indicator[OF h, of ?P]
  have "fst (execLR ?W ?P) ! 0 = slice ?P (Some 0) (Some 4) \<and>
        page_after (take (Suc 0) (zip (left ?W) (right ?W))) ?P = slice ?P (Some 4) None"
    unfolding Let_def by (simp add: m f del: str_find.simps page_after.simps(2))
  then show ?thesis using i m s all by simp
qed

text \<open>
  The claim as stated fails: the wrapper learned from \<open>xAyz\<close> has \<open>left = [x]\<close> and
  \<open>right = [y]\<close>; neither occurs in \<open>abc\<close>, and the attribute returned is \<open>ab\<close>, a plain
  string with no mark of a miss.
\<close>

theorem C3_counterexample:
  "init remdups [''xAyz''] [[(1, 2)]]
     = Inr \<lparr>labels = [[(1, 2)]], examples = [''xAyz''], num_attributes = 1,
            left = [''x''], right = [''y'']\<rparr> \<and>
   \<not> str_in ''x'' ''abc'' \<and> \<not> str_in ''y'' ''abc'' \<and>
   execLR \<lparr>labels = [[(1, 2)]], examples = [''xAyz''], num_attributes = 1,
            left = [''x''], right = [''y'']\<rparr> ''abc''
     = ([''ab''], \<lparr>labels = [[(1, 2)]], examples = [''xAyz''], num_attributes = 1,
            left = [''x''], right = [''y'']\<rparr>)"
  by code_simp

section \<open>The Name/Age scenario\<close>

text \<open>
  An empty right delimiter is found at offset 0 of whatever follows the left delimiter,
  so the attribute extracted with it is always the empty string.
\<close>

lemma str_find_Nil: "str_find s [] = 0"
  by (cases s) (simp_all add: startswith_def)

lemma slice_same: "slice P (Some i) (Some i) = []"
  by (simp add: slice_def Let_def)

lemma execLR_loop_empty_right:
  "execLR_loop ((l, []) # lrs) P attr
     = execLR_loop lrs (slice P (Some (str_find P l + int (length l))) None) (attr @ [[]])"
  by (simp add: Let_def str_find_Nil slice_same)

lemma name_age_left0:
  "str_find ''Name: Carol Age: 22'' ''Name: '' + int (length ''Name: '') = 6"
  "str_find ''Name: Carol Age: 22'' ''ame: '' + int (length ''ame: '') = 6"
  "str_find ''Name: Carol Age: 22'' ''me: '' + int (length ''me: '') = 6"
  "str_find ''Name: Carol Age: 22'' ''e: '' + int (length ''e: '') = 6"
  "str_find ''Name: Carol Age: 22'' '': '' + int (length '': '') = 6"
  "str_find ''Name: Carol Age: 22'' '' '' + int (length '' '') = 6"
  by code_simp+

lemma name_age_right0:
  "str_find (slice ''Name: Carol Age: 22'' (Some 6) None) '' '' + 6 = 11"
  "str_find (slice ''Name: Carol Age: 22'' (Some 6) None) '' A'' + 6 = 11"
  "str_find (slice ''Name: Carol Age: 22'' (Some 6) None) '' Ag'' + 6 = 11"
  "str_find (slice ''Name: Carol Age: 22'' (Some 6) None) '' Age'' + 6 = 11"
  "str_find (slice ''Name: Carol Age: 22'' (Some 6) None) '' Age:'' + 6 = 11"
  by code_simp+

lemma name_age_slice: "slice ''Name: Carol Age: 22'' (Some 6) (Some 11) = ''Carol''"
  by code_simp

lemma name_age_extract:
  assumes "l0 \<in> {''Name: '', ''ame: '', ''me: '', ''e: '', '': '', '' ''}"
    "r0 \<in> {'' '', '' A'', '' Ag'', '' Age'', '' Age:''}"
  shows "execLR_loop [(l0, r0), (l1, [])] ''Name: Carol Age: 22'' [] = [''Carol'', []]"
proof -
  have l: "str_find ''Name: Carol Age: 22'' l0 + int (length l0) = 6"
    using assms(1) name_age_left0 by blast
  have r: "str_find (slice ''Name: Carol Age: 22'' (Some 6) None) r0 + 6 = 11"
    using assms(2) name_age_right0 by blast
  have "execLR_loop [(l0, r0), (l1, [])] ''Name: Carol Age: 22'' []
        = execLR_loop [(l1, [])] (slice ''Name: Carol Age: 22'' (Some 11) None) [''Carol'']"
    unfolding execLR_loop.simps(2)[of l0 r0] Let_def l r name_age_slice by simp
  also have "\<dots> = [''Carol'', []]"
    unfolding execLR_loop_empty_right by simp
  finally show ?thesis .
qed

lemma pick_in_filter:
  assumes "set cs = set xs" "filter V xs \<noteq> []"
  shows "pick V cs d \<in> set (filter V xs)"
proof -
  from assms(2) obtain u where "u \<in> set xs" "V u"
    by (metis filter_False)
  then have "\<not> (\<forall>u\<in>set cs. \<not> V u)" using assms(1) by auto
  with pick_cases[of V cs d] have "pick V cs d \<in> set cs \<and> V (pick V cs d)" by blast
  then show ?thesis using assms(1) by simp
qed

lemma left_candidates_of:
  assumes "set_order ord" "wf_self W" "k < num_attributes W"
    "LeftCandidates ord W (int k) = Inr cs"
    "set (map (left_nb W k) [0..<length (examples W)]) = {m}"
  shows "set cs = set (map (\<lambda>i. drop i m) [0..<length m])"
proof -
  from LeftCandidates_wf[OF assms(1-3)] assms(4) obtain m' where
    m': "m' \<in> left_nb W k ` {..<length (examples W)}" "set cs = {drop i m' |i. i < length m'}"
    by auto
  have "left_nb W k ` {..<length (examples W)} = {m}"
    using assms(5) by (simp add: atLeast0LessThan)
  then have "m' = m" using m'(1) by simp
  then show ?thesis using m'(2) by (auto simp: atLeast0LessThan)
qed

lemma right_candidates_of:
  assumes "set_order ord" "wf_self W" "k < num_attributes W"
    "RightCandidates ord W (int k) = Inr cs"
    "set (map (right_nb W k) [0..<length (examples W)]) = {m}"
  shows "set cs = set (map (\<lambda>i. take i m) [0..<length m])"
proof -
  from RightCandidates_wf[OF assms(1-3)] assms(4) obtain m' where
    m': "m' \<in> right_nb W k ` {..<length (examples W)}" "set cs = {take i m' |i. i < length m'}"
    by auto
  have "right_nb W k ` {..<length (examples W)} = {m}"
    using assms(5) by (simp add: atLeast0LessThan)
  then have "m' = m" using m'(1) by simp
  then show ?thesis using m'(2) by (auto simp: atLeast0LessThan)
qed

lemma name_age_learned:
  assumes so: "set_order ord"
  shows "\<exists>w. init ord [''Name: Alice Age: 30'', ''Name: Bob Age: 45'']
                   [[(6, 11), (17, 19)], [(6, 9), (15, 17)]] = Inr w \<and>
       length (left w) = 2 \<and> length (right w) = 2 \<and>
       left w ! 0 \<in> {''Name: '', ''ame: '', ''me: '', ''e: '', '': '', '' ''} \<and>
       right w ! 0 \<in> {'' '', '' A'', '' Ag'', '' Age'', '' Age:''} \<and>
       left w ! 1 \<in> {'' Age: '', ''Age: '', ''ge: '', ''e: '', '': ''} \<and>
       right w ! 1 = []"
proof -
  let ?D = "[''Name: Alice Age: 30'', ''Name: Bob Age: 45'']"
  let ?L = "[[(6, 11), (17, 19)], [(6, 9), (15, 17)]] :: (int \<times> int) list list"
  let ?W = "\<lparr>labels = ?L, examples = ?D, num_attributes = 2, left = [], right = []\<rparr>"
  have wf: "wf_training ?D ?L" by (simp add: wf_training_def)
  from init_result[OF so wf] obtain w where w: "init ord ?D ?L = Inr w"
    "labels w = ?L" "examples w = ?D" "num_attributes w = length (hd ?L)"
    "length (left w) = num_attributes w" "length (right w) = num_attributes w"
    "\<forall>k<num_attributes w. \<exists>cs. LeftCandidates ord w (int k) = Inr cs \<and>
                 left w ! k = pick (\<lambda>u. valid_left w u k) cs []"
    "\<forall>k<num_attributes w. \<exists>cs. RightCandidates ord w (int k) = Inr cs \<and>
                 right w ! k = pick (\<lambda>u. valid_right w u k) cs []"
    by blast
  have n: "num_attributes w = 2" using w(4) by simp
  have st: "same_training w ?W" by (simp add: same_training_def w(2,3) n)
  have wfW: "wf_self ?W" by (simp add: wf_self_def wf_training_def)
  have nW: "0 < num_attributes ?W" "1 < num_attributes ?W" by simp_all
  note cL = same_training_candidates(1)[OF st, of ord]
  note cR = same_training_candidates(2)[OF st, of ord]
  note vL = same_training_valid(1)[OF st]
  note vR = same_training_valid(2)[OF st]
  \<comment> \<open>left[0]\<close>
  from w(7) n obtain c0 where c0: "LeftCandidates ord ?W (int 0) = Inr c0"
    "left w ! 0 = pick (\<lambda>u. valid_left ?W u 0) c0 []"
    unfolding cL vL by (metis zero_less_numeral)
  have "set (map (left_nb ?W 0) [0..<length (examples ?W)]) = {''Name: ''}" by code_simp
  from left_candidates_of[OF so wfW nW(1) c0(1) this]
  have s0: "set c0 = set (map (\<lambda>i. drop i ''Name: '') [0..<length ''Name: ''])" .
  have f0: "filter (\<lambda>u. valid_left ?W u 0) (map (\<lambda>i. drop i ''Name: '') [0..<length ''Name: ''])
            = [''Name: '', ''ame: '', ''me: '', ''e: '', '': '', '' '']" by code_simp
  have l0: "left w ! 0 \<in> {''Name: '', ''ame: '', ''me: '', ''e: '', '': '', '' ''}"
    using pick_in_filter[OF s0, of "\<lambda>u. valid_left ?W u 0" "[]"] unfolding f0 c0(2) by simp
  \<comment> \<open>left[1]\<close>
  from w(7) n obtain c1 where c1: "LeftCandidates ord ?W (int 1) = Inr c1"
    "left w ! 1 = pick (\<lambda>u. valid_left ?W u 1) c1 []"
    unfolding cL vL by (metis one_less_numeral_iff semiring_norm(76))
  have "set (map (left_nb ?W 1) [0..<length (examples ?W)]) = {'' Age: ''}" by code_simp
  from left_candidates_of[OF so wfW nW(2) c1(1) this]
  have s1: "set c1 = set (map (\<lambda>i. drop i '' Age: '') [0..<length '' Age: ''])" .
  have f1: "filter (\<lambda>u. valid_left ?W u 1) (map (\<lambda>i. drop i '' Age: '') [0..<length '' Age: ''])
            = ['' Age: '', ''Age: '', ''ge: '', ''e: '', '': '']" by code_simp
  have l1: "left w ! 1 \<in> {'' Age: '', ''Age: '', ''ge: '', ''e: '', '': ''}"
    using pick_in_filter[OF s1, of "\<lambda>u. valid_left ?W u 1" "[]"] unfolding f1 c1(2) by simp
  \<comment> \<open>right[0]\<close>
  from w(8) n obtain d0 where d0: "RightCandidates ord ?W (int 0) = Inr d0"
    "right w ! 0 = pick (\<lambda>u. valid_right ?W u 0) d0 []"
    unfolding cR vR by (metis zero_less_numeral)
  have "set (map (right_nb ?W 0) [0..<length (examples ?W)]) = {'' Age: ''}" by code_simp
  from right_candidates_of[OF so wfW nW(1) d0(1) this]
  have t0: "set d0 = set (map (\<lambda>i. take i '' Age: '') [0..<length '' Age: ''])" .
  have g0: "filter (\<lambda>u. valid_right ?W u 0) (map (\<lambda>i. take i '' Age: '') [0..<length '' Age: ''])
            = ['' '', '' A'', '' Ag'', '' Age'', '' Age:'']" by code_simp
  have r0: "right w ! 0 \<in> {'' '', '' A'', '' Ag'', '' Age'', '' Age:''}"
    using pick_in_filter[OF t0, of "\<lambda>u. valid_right ?W u 0" "[]"] unfolding g0 d0(2) by simp
  \<comment> \<open>right[1]\<close>
  from w(8) n obtain d1 where d1: "RightCandidates ord ?W (int 1) = Inr d1"
    "right w ! 1 = pick (\<lambda>u. valid_right ?W u 1) d1 []"
    unfolding cR vR by (metis one_less_numeral_iff semiring_norm(76))
  have "set (map (right_nb ?W 1) [0..<length (examples ?W)]) = {[]}" by code_simp
  from right_candidates_of[OF so wfW nW(2) d1(1) this]
  have "d1 = []" by simp
  then have r1: "right w ! 1 = []" using d1(2) by (simp add: pick_def)
  show ?thesis using w(1,5,6) n l0 l1 r0 r1 by auto
qed

text \<open>
  C2, as the code has it. For the training documents \<open>Name: Alice Age: 30\<close> and
  \<open>Name: Bob Age: 45\<close> with the spans of \<open>Alice\<close>/\<open>30\<close> and \<open>Bob\<close>/\<open>45\<close>, under every
  iteration order of the candidate sets: construction succeeds; \<open>left[0]\<close>, \<open>right[0]\<close> and
  \<open>left[1]\<close> are among the candidates that validate (the values \<open>Name: \<close>, \<open> Age\<close> and
  \<open>: \<close> are among them), \<open>right[1]\<close> is the empty string, and extraction on
  \<open>Name: Carol Age: 22\<close> returns \<open>Carol\<close> and the empty string.
\<close>

theorem C2_name_age_scenario:
  assumes "set_order ord"
  shows "\<exists>w. init ord [''Name: Alice Age: 30'', ''Name: Bob Age: 45'']
                   [[(6, 11), (17, 19)], [(6, 9), (15, 17)]] = Inr w \<and>
       left w ! 0 \<in> {''Name: '', ''ame: '', ''me: '', ''e: '', '': '', '' ''} \<and>
       right w ! 0 \<in> {'' '', '' A'', '' Ag'', '' Age'', '' Age:''} \<and>
       left w ! 1 \<in> {'' Age: '', ''Age: '', ''ge: '', ''e: '', '': ''} \<and>
       right w ! 1 = [] \<and>
       fst (execLR w ''Name: Carol Age: 22'') = [''Carol'', []]"
proof -
  from name_age_learned[OF assms] obtain w where w:
    "init ord [''Name: Alice Age: 30'', ''Name: Bob Age: 45'']
                   [[(6, 11), (17, 19)], [(6, 9), (15, 17)]] = Inr w"
    "length (left w) = 2" "length (right w) = 2"
    "left w ! 0 \<in> {''Name: '', ''ame: '', ''me: '', ''e: '', '': '', '' ''}"
    "right w ! 0 \<in> {'' '', '' A'', '' Ag'', '' Age'', '' Age:''}"
    "left w ! 1 \<in> {'' Age: '', ''Age: '', ''ge: '', ''e: '', '': ''}"
    "right w ! 1 = []"
    by blast
  have two: "xs = [xs ! 0, xs ! 1]" if "length xs = 2" for xs :: "string list"
    using that by (cases xs; cases "tl xs") auto
  have "zip (left w) (right w) = [(left w ! 0, right w ! 0), (left w ! 1, [])]"
    using two[OF w(2)] two[OF w(3)] w(7) by (metis zip_Cons_Cons zip_Nil)
  then have "fst (execLR w ''Name: Carol Age: 22'') = [''Carol'', []]"
    using name_age_extract[OF w(4,5)] by (simp add: execLR_def)
  then show ?thesis using w by blast
qed

text \<open>The scenario under one concrete iteration order.\<close>

theorem C2_name_age_scenario_witness:
  "set_order remdups \<and>
   (\<exists>w. init remdups [''Name: Alice Age: 30'', ''Name: Bob Age: 45'']
                   [[(6, 11), (17, 19)], [(6, 9), (15, 17)]] = Inr w \<and>
       left w ! 0 \<in> {''Name: '', ''ame: '', ''me: '', ''e: '', '': '', '' ''} \<and>
       right w ! 0 \<in> {'' '', '' A'', '' Ag'', '' Age'', '' Age:''} \<and>
       left w ! 1 \<in> {'' Age: '', ''Age: '', ''ge: '', ''e: '', '': ''} \<and>
       right w ! 1 = [] \<and>
       fst (execLR w ''Name: Carol Age: 22'') = [''Carol'', []])"
proof -
  have so: "set_order remdups" by (simp add: set_order_def)
  show ?thesis using C2_name_age_scenario[OF so] so by blast
qed

text \<open>
  The claim as stated fails: with exactly the delimiters it names, extraction on
  \<open>Name: Carol Age: 22\<close> returns the empty string for the second attribute, not \<open>22\<close>.
\<close>

theorem C2_counterexample:
  "fst (execLR \<lparr>labels = [[(6, 11), (17, 19)], [(6, 9), (15, 17)]],
                 examples = [''Name: Alice Age: 30'', ''Name: Bob Age: 45''],
                 num_attributes = 2,
                 left = [''Name: '', '': ''], right = ['' Age'', '''']\<rparr>
          ''Name: Carol Age: 22'') = [''Carol'', ''''] \<and>
   [''Carol'', ''''] \<noteq> [''Carol'', ''22'']"
  by code_simp

section \<open>Adding a training document\<close>

text \<open>
  C9 says: when a training document with a shorter right neighbour for some attribute is
  added and the delimiter chosen before still validates, the right delimiter chosen
  afterwards is at least as long as before and valid. The code does not do that. Trained
  on \<open>XabY\<close> alone (attributes \<open>X\<close> and \<open>Y\<close>), the right neighbour of attribute 0 is
  \<open>ab\<close> and \<open>right[0]\<close> is \<open>a\<close>. Adding \<open>XaY\<close> brings the shorter right neighbour \<open>a\<close>,
  and \<open>a\<close> still passes \<open>IsValidRight\<close> on the two documents. But \<open>RightCandidates\<close>
  proposes only the prefixes of the shortest neighbour short of that neighbour itself,
  here the empty string alone, so \<open>right[0]\<close> becomes the empty string: shorter than
  \<open>a\<close>, and failing \<open>IsValidRight\<close>. \<open>LeftCandidates\<close>, on the same shortest
  neighbour \<open>a\<close> of attribute 1, does propose the full string.
\<close>

theorem C9_shorter_neighbor_failing_input:
  "init remdups [''XabY''] [[(0, 1), (3, 4)]]
     = Inr \<lparr>labels = [[(0, 1), (3, 4)]], examples = [''XabY''], num_attributes = 2,
            left = ['''', ''ab''], right = [''a'', '''']\<rparr> \<and>
   init remdups [''XabY'', ''XaY''] [[(0, 1), (3, 4)], [(0, 1), (2, 3)]]
     = Inr \<lparr>labels = [[(0, 1), (3, 4)], [(0, 1), (2, 3)]], examples = [''XabY'', ''XaY''],
            num_attributes = 2, left = ['''', ''''], right = ['''', '''']\<rparr> \<and>
   RightNeighbors remdups \<lparr>labels = [[(0, 1), (3, 4)]], examples = [''XabY''], num_attributes = 2,
            left = ['''', ''ab''], right = [''a'', '''']\<rparr> 0 = Inr [''ab''] \<and>
   RightNeighbors remdups \<lparr>labels = [[(0, 1), (3, 4)], [(0, 1), (2, 3)]],
            examples = [''XabY'', ''XaY''], num_attributes = 2,
            left = ['''', ''''], right = ['''', '''']\<rparr> 0 = Inr [''ab'', ''a''] \<and>
   IsValidRight remdups \<lparr>labels = [[(0, 1), (3, 4)], [(0, 1), (2, 3)]],
            examples = [''XabY'', ''XaY''], num_attributes = 2,
            left = ['''', ''''], right = ['''', '''']\<rparr> ''a'' 0 = Inr True \<and>
   RightCandidates remdups \<lparr>labels = [[(0, 1), (3, 4)], [(0, 1), (2, 3)]],
            examples = [''XabY'', ''XaY''], num_attributes = 2,
            left = ['''', ''''], right = ['''', '''']\<rparr> 0 = Inr [''''] \<and>
   LeftCandidates remdups \<lparr>labels = [[(0, 1), (3, 4)], [(0, 1), (2, 3)]],
            examples = [''XabY'', ''XaY''], num_attributes = 2,
            left = ['''', ''''], right = ['''', '''']\<rparr> 1 = Inr [''a''] \<and>
   IsValidRight remdups \<lparr>labels = [[(0, 1), (3, 4)], [(0, 1), (2, 3)]],
            examples = [''XabY'', ''XaY''], num_attributes = 2,
            left = ['''', ''''], right = ['''', '''']\<rparr> '''' 0 = Inr False \<and>
   length '''' < length ''a''"
  by code_simp

section \<open>Round trip on the training documents\<close>















text \<open>
  Validation alone does not give the round trip. On \<open>aaaXbc\<close> and \<open>baaYbc\<close> the only
  left candidate that validates is \<open>aa\<close>, which also occurs one character earlier in the
  head \<open>aaa\<close>; \<open>find\<close> takes that occurrence and the value extracted is \<open>aX\<close>.
\<close>

lemma overlap_breaks_round_trip:
  "init remdups [''aaaXbc'', ''baaYbc''] [[(3, 4)], [(3, 4)]]
     = Inr \<lparr>labels = [[(3, 4)], [(3, 4)]], examples = [''aaaXbc'', ''baaYbc''],
            num_attributes = 1, left = [''aa''], right = [''b'']\<rparr> \<and>
   IsValidLeft remdups \<lparr>labels = [[(3, 4)], [(3, 4)]], examples = [''aaaXbc'', ''baaYbc''],
            num_attributes = 1, left = [''aa''], right = [''b'']\<rparr> ''aa'' 0 = Inr True \<and>
   IsValidRight remdups \<lparr>labels = [[(3, 4)], [(3, 4)]], examples = [''aaaXbc'', ''baaYbc''],
            num_attributes = 1, left = [''aa''], right = [''b'']\<rparr> ''b'' 0 = Inr True \<and>
   str_in ''aa'' (butlast ''aaa'') \<and>
   fst (execLR \<lparr>labels = [[(3, 4)], [(3, 4)]], examples = [''aaaXbc'', ''baaYbc''],
            num_attributes = 1, left = [''aa''], right = [''b'']\<rparr> ''aaaXbc'') = [''aX''] \<and>
   slice ''aaaXbc'' (Some 3) (Some 4) = ''X''"
  by code_simp

text \<open>
  On \<open><xaaab\<close> with the attribute \<open>xa\<close> the right delimiter \<open>aa\<close> validates, but it
  already begins at the last character of the attribute, and the value extracted is \<open>x\<close>.
\<close>

lemma straddle_breaks_round_trip:
  "init remdups [''<xaaab''] [[(1, 3)]]
     = Inr \<lparr>labels = [[(1, 3)]], examples = [''<xaaab''],
            num_attributes = 1, left = [''<''], right = [''aa'']\<rparr> \<and>
   IsValidLeft remdups \<lparr>labels = [[(1, 3)]], examples = [''<xaaab''],
            num_attributes = 1, left = [''<''], right = [''aa'']\<rparr> ''<'' 0 = Inr True \<and>
   IsValidRight remdups \<lparr>labels = [[(1, 3)]], examples = [''<xaaab''],
            num_attributes = 1, left = [''<''], right = [''aa'']\<rparr> ''aa'' 0 = Inr True \<and>
   str_in ''aa'' (''xa'' @ butlast ''aa'') \<and>
   fst (execLR \<lparr>labels = [[(1, 3)]], examples = [''<xaaab''],
            num_attributes = 1, left = [''<''], right = [''aa'']\<rparr> ''<xaaab'') = [''x''] \<and>
   slice ''<xaaab'' (Some 1) (Some 3) = ''xa''"
  by code_simp

end
